theory Spec2Isabelle
  imports Complex_Main "HOL-Library.Word" "HOL-Library.List_Lexorder"
begin

section \<open>Conventions of the embedding\<close>

text \<open>
  The profile tables of \<^verbatim>\<open>profile-data.js\<close> are columnar: one array per field and a
  \<^verbatim>\<open>length\<close> field. Each table is a record whose columns are lists; the field names
  carry a short prefix for their table (\<^verbatim>\<open>na_\<close>, \<^verbatim>\<open>sa_\<close>, \<^verbatim>\<open>st_\<close>, ...), since the same
  JavaScript field name occurs in several tables.

  Indices are natural numbers, a nullable index (\<^verbatim>\<open>IndexIntoStackTable | null\<close>) is an
  \<open>option\<close>, and the call-node columns, which use \<^verbatim>\<open>-1\<close> for "no parent", hold integers.
  Times, weights and durations are JavaScript numbers; they are rationals here, so the
  comparisons are exact and the rounding of floating-point sums is not represented.

  A read \<^verbatim>\<open>column[i]\<close> is written \<open>column ! i\<close>. The predicates named \<open>wf_...\<close> state the
  shape of a table (every column as long as \<^verbatim>\<open>length\<close>, every stored index inside the table
  it points into); under them each read of the code falls inside its column. Outside them
  JavaScript reads \<^verbatim>\<open>undefined\<close> and goes on; no statement below is about such a run.
\<close>

section \<open>Native allocations\<close>

text \<open>
  \<^verbatim>\<open>NativeAllocationsTable\<close> is the union of the unbalanced table and the balanced one,
  which adds \<^verbatim>\<open>memoryAddress\<close> and \<^verbatim>\<open>threadId\<close>. The constant field \<^verbatim>\<open>weightType: 'bytes'\<close>
  is kept as a string.
\<close>

record UnbalancedNativeAllocationsTable =
  na_time :: "rat list"
  na_weight :: "int list"
  na_weightType :: string
  na_stack :: "nat option list"
  na_length :: nat

record BalancedNativeAllocationsTable = UnbalancedNativeAllocationsTable +
  na_memoryAddress :: "nat list"
  na_threadId :: "nat list"

datatype NativeAllocationsTable =
    Unbalanced UnbalancedNativeAllocationsTable
  | Balanced BalancedNativeAllocationsTable

text \<open>
  Modelled from the spec: \<^verbatim>\<open>getEmptyUnbalancedNativeAllocationsTable\<close> and
  \<^verbatim>\<open>getEmptyBalancedNativeAllocationsTable\<close> are imported from \<^verbatim>\<open>./data-structures\<close>, which is
  not among the sources. By their names and their use (every caller pushes onto each column
  and increments \<^verbatim>\<open>length\<close>) they return a table of length 0 with empty columns.
\<close>

definition getEmptyUnbalancedNativeAllocationsTable :: UnbalancedNativeAllocationsTable where
  "getEmptyUnbalancedNativeAllocationsTable =
     \<lparr> na_time = [], na_weight = [], na_weightType = ''bytes'', na_stack = [], na_length = 0 \<rparr>"

definition getEmptyBalancedNativeAllocationsTable :: BalancedNativeAllocationsTable where
  "getEmptyBalancedNativeAllocationsTable =
     \<lparr> na_time = [], na_weight = [], na_weightType = ''bytes'', na_stack = [], na_length = 0,
       na_memoryAddress = [], na_threadId = [] \<rparr>"

text \<open>
  The body of the copying loops: push row \<open>i\<close> of the source table onto the new table, with
  \<open>stk\<close> as its stack entry, and increment \<^verbatim>\<open>length\<close>.
\<close>

definition pushUnbalanced ::
  "UnbalancedNativeAllocationsTable \<Rightarrow> nat \<Rightarrow> UnbalancedNativeAllocationsTable
     \<Rightarrow> UnbalancedNativeAllocationsTable" where
  "pushUnbalanced src i new =
     new\<lparr> na_time := na_time new @ [na_time src ! i],
          na_stack := na_stack new @ [na_stack src ! i],
          na_weight := na_weight new @ [na_weight src ! i],
          na_length := na_length new + 1 \<rparr>"

definition pushBalanced ::
  "BalancedNativeAllocationsTable \<Rightarrow> nat \<Rightarrow> nat option \<Rightarrow> BalancedNativeAllocationsTable
     \<Rightarrow> BalancedNativeAllocationsTable" where
  "pushBalanced src i stk new =
     new\<lparr> na_time := na_time new @ [na_time src ! i],
          na_stack := na_stack new @ [stk],
          na_weight := na_weight new @ [na_weight src ! i],
          na_memoryAddress := na_memoryAddress new @ [na_memoryAddress src ! i],
          na_threadId := na_threadId new @ [na_threadId src ! i],
          na_length := na_length new + 1 \<rparr>"

text \<open>\<^verbatim>\<open>filterToAllocations\<close>: both branches keep the rows with \<^verbatim>\<open>weight > 0\<close>.\<close>

definition filterToAllocations :: "NativeAllocationsTable \<Rightarrow> NativeAllocationsTable" where
  "filterToAllocations nativeAllocations =
     (case nativeAllocations of
        Balanced t \<Rightarrow>
          Balanced (fold (\<lambda>i new. if na_weight t ! i > 0
                                   then pushBalanced t i (na_stack t ! i) new else new)
                      [0 ..< na_length t] getEmptyBalancedNativeAllocationsTable)
      | Unbalanced t \<Rightarrow>
          Unbalanced (fold (\<lambda>i new. if na_weight t ! i > 0 then pushUnbalanced t i new else new)
                        [0 ..< na_length t] getEmptyUnbalancedNativeAllocationsTable))"

text \<open>
  \<^verbatim>\<open>filterToDeallocationsMemory\<close>, first loop. The state is the map
  \<^verbatim>\<open>memoryAddressToAllocation\<close> and the array \<^verbatim>\<open>stackOfOriginalAllocation\<close>; the loop writes
  the array at \<^verbatim>\<open>allocationIndex\<close>, which is its current length, so each write appends.
  What is stored on a match is \<^verbatim>\<open>previousAllocationIndex\<close>, the index of the allocation row.
\<close>

definition deallocationsMemoryStep ::
  "BalancedNativeAllocationsTable \<Rightarrow> nat \<Rightarrow> (nat \<rightharpoonup> nat) \<times> nat option list
     \<Rightarrow> (nat \<rightharpoonup> nat) \<times> nat option list" where
  "deallocationsMemoryStep t allocationIndex state =
     (let memoryAddressToAllocation = fst state;
          stackOfOriginalAllocation = snd state;
          bytes = na_weight t ! allocationIndex;
          memoryAddress = na_memoryAddress t ! allocationIndex
      in if bytes \<ge> 0
         then (memoryAddressToAllocation(memoryAddress \<mapsto> allocationIndex),
               stackOfOriginalAllocation @ [None])
         else (case memoryAddressToAllocation memoryAddress of
                 None \<Rightarrow> (memoryAddressToAllocation, stackOfOriginalAllocation @ [None])
               | Some previousAllocationIndex \<Rightarrow>
                   (memoryAddressToAllocation(memoryAddress := None),
                    stackOfOriginalAllocation @ [Some previousAllocationIndex])))"

definition filterToDeallocationsMemory ::
  "BalancedNativeAllocationsTable \<Rightarrow> NativeAllocationsTable" where
  "filterToDeallocationsMemory t =
     (let stackOfOriginalAllocation =
            snd (fold (deallocationsMemoryStep t) [0 ..< na_length t] (Map.empty, []))
      in Balanced (fold (\<lambda>i new. case stackOfOriginalAllocation ! i of
                                   None \<Rightarrow> new
                                 | Some stackIndex \<Rightarrow> pushBalanced t i (Some stackIndex) new)
                     [0 ..< na_length t] getEmptyBalancedNativeAllocationsTable))"

text \<open>
  \<^verbatim>\<open>filterToRetainedAllocations\<close>, first loop: \<^verbatim>\<open>retainedAllocation[allocationIndex]\<close> is
  appended, \<^verbatim>\<open>retainedAllocation[previousAllocationIndex] = false\<close> updates an earlier entry.
\<close>

definition retainedAllocationsStep ::
  "BalancedNativeAllocationsTable \<Rightarrow> nat \<Rightarrow> (nat \<rightharpoonup> nat) \<times> bool list
     \<Rightarrow> (nat \<rightharpoonup> nat) \<times> bool list" where
  "retainedAllocationsStep t allocationIndex state =
     (let memoryAddressToAllocation = fst state;
          retainedAllocation = snd state;
          bytes = na_weight t ! allocationIndex;
          memoryAddress = na_memoryAddress t ! allocationIndex
      in if bytes \<ge> 0
         then (memoryAddressToAllocation(memoryAddress \<mapsto> allocationIndex),
               retainedAllocation @ [True])
         else (case memoryAddressToAllocation memoryAddress of
                 None \<Rightarrow> (memoryAddressToAllocation, retainedAllocation @ [False])
               | Some previousAllocationIndex \<Rightarrow>
                   (memoryAddressToAllocation(memoryAddress := None),
                    (retainedAllocation @ [False])[previousAllocationIndex := False])))"

definition filterToRetainedAllocations ::
  "BalancedNativeAllocationsTable \<Rightarrow> NativeAllocationsTable" where
  "filterToRetainedAllocations t =
     (let retainedAllocation =
            snd (fold (retainedAllocationsStep t) [0 ..< na_length t] (Map.empty, []))
      in Balanced (fold (\<lambda>i new. if retainedAllocation ! i
                                   then pushBalanced t i (na_stack t ! i) new else new)
                     [0 ..< na_length t] getEmptyBalancedNativeAllocationsTable))"

text \<open>
  Two tables used below. \<open>pairedAllocation\<close>: an allocation of 100 bytes at address
  \<^verbatim>\<open>0x10\<close> recorded with stack 7, then its deallocation recorded with stack 9.
  \<open>zeroWeightAllocation\<close>: the same with an allocation of weight 0.
\<close>

definition pairedAllocation :: BalancedNativeAllocationsTable where
  "pairedAllocation =
     \<lparr> na_time = [1, 2], na_weight = [100, -100], na_weightType = ''bytes'',
       na_stack = [Some 7, Some 9], na_length = 2,
       na_memoryAddress = [16, 16], na_threadId = [1, 1] \<rparr>"

definition zeroWeightAllocation :: BalancedNativeAllocationsTable where
  "zeroWeightAllocation =
     \<lparr> na_time = [1, 2], na_weight = [0, -100], na_weightType = ''bytes'',
       na_stack = [Some 7, Some 9], na_length = 2,
       na_memoryAddress = [16, 16], na_threadId = [1, 1] \<rparr>"

section \<open>Raw tables and the call-node table\<close>

text \<open>
  The columns of the raw tables that the functions below read. \<^verbatim>\<open>FuncTable.length\<close> is the
  \<^verbatim>\<open>funcCount\<close> of the call-node builder. The string table is taken as its lookup
  \<^verbatim>\<open>getString\<close> (the class \<^verbatim>\<open>UniqueStringArray\<close> is not among the sources).
\<close>

record StackTable =
  st_frame :: "nat list"
  st_category :: "nat list"
  st_subcategory :: "nat list"
  st_prefix :: "nat option list"
  st_length :: nat

record FrameTable =
  ft_func :: "nat list"
  ft_innerWindowID :: "nat option list"
  ft_implementation :: "nat option list"
  ft_length :: nat

record FuncTable =
  fn_isJS :: "bool list"
  fn_length :: nat

text \<open>
  \<^verbatim>\<open>CallNodeTable\<close>: \<^verbatim>\<open>prefix\<close>, \<^verbatim>\<open>func\<close>, \<^verbatim>\<open>category\<close> and \<^verbatim>\<open>subcategory\<close> are
  \<^verbatim>\<open>Int32Array\<close>s, \<^verbatim>\<open>innerWindowID\<close> is a \<^verbatim>\<open>Float64Array\<close> and \<^verbatim>\<open>depth\<close> a plain array.
\<close>

record CallNodeTable =
  cn_prefix :: "int list"
  cn_func :: "int list"
  cn_category :: "int list"
  cn_subcategory :: "int list"
  cn_innerWindowID :: "nat list"
  cn_depth :: "nat list"
  cn_length :: nat

record CallNodeInfo =
  callNodeTable :: CallNodeTable
  stackIndexToCallNodeIndex :: "nat list"

text \<open>
  Storing a number in an \<^verbatim>\<open>Int32Array\<close> keeps its low 32 bits, read as a signed integer;
  a \<^verbatim>\<open>Uint32Array\<close> keeps them unsigned. A \<^verbatim>\<open>Float64Array\<close> stores a window id unchanged
  (ids are integers below \<open>2\<^sup>5\<^sup>3\<close>).
\<close>

definition toInt32 :: "int \<Rightarrow> int" where
  "toInt32 x = sint (word_of_int x :: 32 word)"

definition toUint32 :: "nat \<Rightarrow> nat" where
  "toUint32 x = x mod 2 ^ 32"

section \<open>The call-node builder\<close>

text \<open>
  The state of the loop of \<^verbatim>\<open>getCallNodeInfo\<close>: the map
  \<^verbatim>\<open>prefixCallNodeAndFuncToCallNodeMap\<close>, the six arrays under construction, \<^verbatim>\<open>length\<close>,
  and \<^verbatim>\<open>stackIndexToCallNodeIndex\<close>.
\<close>

record BuilderState =
  b_map :: "int \<rightharpoonup> nat"
  b_prefix :: "int list"
  b_func :: "nat list"
  b_category :: "nat list"
  b_subcategory :: "nat list"
  b_innerWindowID :: "nat list"
  b_depth :: "nat list"
  b_length :: nat
  b_stackIndexToCallNodeIndex :: "nat list"

text \<open>
  \<^verbatim>\<open>addCallNode\<close>: \<^verbatim>\<open>index = length++\<close> is the common length of the six arrays, so each
  assignment at \<^verbatim>\<open>index\<close> appends.
\<close>

definition addCallNode :: "int \<Rightarrow> nat \<Rightarrow> nat \<Rightarrow> nat \<Rightarrow> nat \<Rightarrow> BuilderState \<Rightarrow> BuilderState" where
  "addCallNode prefixIndex funcIndex categoryIndex subcategoryIndex windowID b =
     b\<lparr> b_length := b_length b + 1,
        b_prefix := b_prefix b @ [prefixIndex],
        b_func := b_func b @ [funcIndex],
        b_category := b_category b @ [categoryIndex],
        b_subcategory := b_subcategory b @ [subcategoryIndex],
        b_innerWindowID := b_innerWindowID b @ [windowID],
        b_depth := b_depth b @ [if prefixIndex = -1 then 0
                                else b_depth b ! nat prefixIndex + 1] \<rparr>"

text \<open>One iteration of the loop over the stacks.\<close>

definition callNodeStep ::
  "StackTable \<Rightarrow> FrameTable \<Rightarrow> nat \<Rightarrow> nat \<Rightarrow> nat \<Rightarrow> BuilderState \<Rightarrow> BuilderState" where
  "callNodeStep stackTable frameTable funcCount defaultCategory stackIndex b =
     (let prefixStack = st_prefix stackTable ! stackIndex;
          prefixCallNode = (case prefixStack of
                              None \<Rightarrow> -1
                            | Some p \<Rightarrow> int (b_stackIndexToCallNodeIndex b ! p));
          frameIndex = st_frame stackTable ! stackIndex;
          categoryIndex = st_category stackTable ! stackIndex;
          subcategoryIndex = st_subcategory stackTable ! stackIndex;
          windowID = (case ft_innerWindowID frameTable ! frameIndex of
                        None \<Rightarrow> 0
                      | Some w \<Rightarrow> w);
          funcIndex = ft_func frameTable ! frameIndex;
          prefixCallNodeAndFuncIndex = prefixCallNode * int funcCount + int funcIndex
      in case b_map b prefixCallNodeAndFuncIndex of
           None \<Rightarrow>
             (let callNodeIndex = b_length b;
                  b1 = addCallNode prefixCallNode funcIndex categoryIndex subcategoryIndex
                         windowID b;
                  b2 = b1\<lparr> b_map := (b_map b1)(prefixCallNodeAndFuncIndex \<mapsto> callNodeIndex) \<rparr>
              in b2\<lparr> b_stackIndexToCallNodeIndex :=
                        (b_stackIndexToCallNodeIndex b2)[stackIndex := toUint32 callNodeIndex] \<rparr>)
         | Some callNodeIndex \<Rightarrow>
             (let b1 =
                (if b_category b ! callNodeIndex \<noteq> categoryIndex
                 then b\<lparr> b_category := (b_category b)[callNodeIndex := defaultCategory],
                         b_subcategory := (b_subcategory b)[callNodeIndex := 0] \<rparr>
                 else if b_subcategory b ! callNodeIndex \<noteq> subcategoryIndex
                 then b\<lparr> b_subcategory := (b_subcategory b)[callNodeIndex := 0] \<rparr>
                 else b)
              in b1\<lparr> b_stackIndexToCallNodeIndex :=
                        (b_stackIndexToCallNodeIndex b1)[stackIndex := toUint32 callNodeIndex] \<rparr>))"

definition initialBuilderState :: "StackTable \<Rightarrow> BuilderState" where
  "initialBuilderState stackTable =
     \<lparr> b_map = Map.empty, b_prefix = [], b_func = [], b_category = [], b_subcategory = [],
       b_innerWindowID = [], b_depth = [], b_length = 0,
       b_stackIndexToCallNodeIndex = replicate (st_length stackTable) 0 \<rparr>"

definition runBuilder ::
  "StackTable \<Rightarrow> FrameTable \<Rightarrow> nat \<Rightarrow> nat \<Rightarrow> nat \<Rightarrow> BuilderState" where
  "runBuilder stackTable frameTable funcCount defaultCategory n =
     fold (callNodeStep stackTable frameTable funcCount defaultCategory) [0 ..< n]
       (initialBuilderState stackTable)"

definition getCallNodeInfo :: "StackTable \<Rightarrow> FrameTable \<Rightarrow> FuncTable \<Rightarrow> nat \<Rightarrow> CallNodeInfo" where
  "getCallNodeInfo stackTable frameTable funcTable defaultCategory =
     (let b = runBuilder stackTable frameTable (fn_length funcTable) defaultCategory
                (st_length stackTable)
      in \<lparr> callNodeTable =
             \<lparr> cn_prefix = map toInt32 (b_prefix b),
               cn_func = map (toInt32 \<circ> int) (b_func b),
               cn_category = map (toInt32 \<circ> int) (b_category b),
               cn_subcategory = map (toInt32 \<circ> int) (b_subcategory b),
               cn_innerWindowID = b_innerWindowID b,
               cn_depth = b_depth b,
               cn_length = b_length b \<rparr>,
           stackIndexToCallNodeIndex = b_stackIndexToCallNodeIndex b \<rparr>)"

text \<open>
  The shape of the input of the builder: the columns of the stack table have
  \<^verbatim>\<open>stackTable.length\<close> entries, the prefix of a stack is an earlier stack (the condition the
  code notes as known: \<^verbatim>\<open>prefixStack === null || prefixStack < stackIndex\<close>), every frame is a
  row of the frame table and every function a row below \<^verbatim>\<open>funcTable.length\<close>; and the sizes
  and category numbers fit the 32-bit typed arrays they are stored in.
\<close>

definition wf_stackTable :: "StackTable \<Rightarrow> FrameTable \<Rightarrow> FuncTable \<Rightarrow> nat \<Rightarrow> bool" where
  "wf_stackTable stackTable frameTable funcTable defaultCategory \<longleftrightarrow>
     length (st_frame stackTable) = st_length stackTable \<and>
     length (st_category stackTable) = st_length stackTable \<and>
     length (st_subcategory stackTable) = st_length stackTable \<and>
     length (st_prefix stackTable) = st_length stackTable \<and>
     length (ft_func frameTable) = ft_length frameTable \<and>
     length (ft_innerWindowID frameTable) = ft_length frameTable \<and>
     st_length stackTable < 2 ^ 31 \<and>
     fn_length funcTable < 2 ^ 31 \<and>
     defaultCategory < 2 ^ 31 \<and>
     (\<forall>s < st_length stackTable.
        (case st_prefix stackTable ! s of None \<Rightarrow> True | Some p \<Rightarrow> p < s) \<and>
        st_frame stackTable ! s < ft_length frameTable \<and>
        st_category stackTable ! s < 2 ^ 31 \<and>
        st_subcategory stackTable ! s < 2 ^ 31) \<and>
     (\<forall>f < ft_length frameTable. ft_func frameTable ! f < fn_length funcTable)"

fun weightsOf :: "NativeAllocationsTable \<Rightarrow> int list" where
  "weightsOf (Unbalanced t) = na_weight t"
| "weightsOf (Balanced t) = na_weight t"

section \<open>General lemmas\<close>

lemma upt_2: "[0..<2] = [0, Suc 0]"
  by (simp add: upt_rec)

lemma upt_3: "[0..<3] = [0, Suc 0, 2]"
  by (simp add: upt_rec)

lemma upt_4: "[0..<4] = [0, Suc 0, 2, 3]"
  by (simp add: upt_rec)

lemma upt_6: "[0..<6] = [0, Suc 0, 2, 3, 4, 5]"
  by (simp add: upt_rec)

lemma replicate_3: "replicate 3 x = [x, x, x]"
  by (simp add: numeral_3_eq_3)

lemma replicate_6: "replicate 6 x = [x, x, x, x, x, x]"
  by (simp add: numeral_eq_Suc)

text \<open>A bounded quantifier over a concrete range is evaluated through the list of indices.\<close>

lemma all_less_upt: "(\<forall>s<n. P s) \<longleftrightarrow> list_all P [0..<n]"
  by (auto simp: list_all_iff)

text \<open>A loop invariant for a \<^verbatim>\<open>for\<close> loop written as a fold.\<close>

lemma fold_invariant:
  "P s \<Longrightarrow> (\<And>x s. x \<in> set xs \<Longrightarrow> P s \<Longrightarrow> P (f x s)) \<Longrightarrow> P (fold f xs s)"
  by (induction xs arbitrary: s) simp_all

section \<open>Properties of the allocation filters\<close>

lemma na_weight_pushBalanced:
  "na_weight (pushBalanced t i s new) = na_weight new @ [na_weight t ! i]"
  by (simp add: pushBalanced_def)

lemma na_weight_pushUnbalanced:
  "na_weight (pushUnbalanced t i new) = na_weight new @ [na_weight t ! i]"
  by (simp add: pushUnbalanced_def)

lemma fold_pushBalanced_positive:
  assumes "\<forall>w \<in> set (na_weight new). 0 < w"
  shows "\<forall>w \<in> set (na_weight (fold (\<lambda>i new. if na_weight t ! i > 0
             then pushBalanced t i (na_stack t ! i) new else new) js new)). 0 < w"
  by (rule fold_invariant [where P = "\<lambda>new. \<forall>w \<in> set (na_weight new). 0 < w"])
     (use assms in \<open>simp_all add: na_weight_pushBalanced\<close>)

lemma fold_pushUnbalanced_positive:
  assumes "\<forall>w \<in> set (na_weight new). 0 < w"
  shows "\<forall>w \<in> set (na_weight (fold (\<lambda>i new. if na_weight t ! i > 0
             then pushUnbalanced t i new else new) js new)). 0 < w"
  by (rule fold_invariant [where P = "\<lambda>new. \<forall>w \<in> set (na_weight new). 0 < w"])
     (use assms in \<open>simp_all add: na_weight_pushUnbalanced\<close>)

lemma filterToAllocations_positive: "\<forall>w \<in> set (weightsOf (filterToAllocations T)). 0 < w"
proof (cases T)
  case (Unbalanced t)
  have "\<forall>w \<in> set (na_weight getEmptyUnbalancedNativeAllocationsTable). 0 < w"
    by (simp add: getEmptyUnbalancedNativeAllocationsTable_def)
  from fold_pushUnbalanced_positive [OF this] Unbalanced show ?thesis
    by (simp add: filterToAllocations_def)
next
  case (Balanced t)
  have "\<forall>w \<in> set (na_weight getEmptyBalancedNativeAllocationsTable). 0 < w"
    by (simp add: getEmptyBalancedNativeAllocationsTable_def)
  from fold_pushBalanced_positive [OF this] Balanced show ?thesis
    by (simp add: filterToAllocations_def)
qed

text \<open>
  C8 (the code departs from the claim). \<^verbatim>\<open>filterToDeallocationsMemory\<close> on an allocation at
  address \<^verbatim>\<open>0x10\<close> (weight 100, stack 7) followed by its deallocation (weight -100, stack 9)
  returns exactly one record, the deallocation, but the stack it carries is 0, the row index
  of the allocation in the allocations table, and not 7, the stack of the allocation.
\<close>

theorem deallocations_memory_stack_is_allocation_index:
  "filterToDeallocationsMemory pairedAllocation =
     Balanced \<lparr> na_time = [2], na_weight = [-100], na_weightType = ''bytes'',
                na_stack = [Some 0], na_length = 1,
                na_memoryAddress = [16], na_threadId = [1] \<rparr>
   \<and> na_stack pairedAllocation ! 0 = Some 7"
  by (simp add: filterToDeallocationsMemory_def pairedAllocation_def upt_2
      deallocationsMemoryStep_def pushBalanced_def getEmptyBalancedNativeAllocationsTable_def
      Let_def)

text \<open>
  C10. An event of weight exactly 0 takes the allocation branch of both pairing loops
  (\<^verbatim>\<open>bytes >= 0\<close>): after the step the address map sends its address to its index. No row
  of weight 0 is in the result of \<^verbatim>\<open>filterToAllocations\<close> (\<^verbatim>\<open>weight > 0\<close>). And there is an
  input, \<open>zeroWeightAllocation\<close>, where the event of weight 0 is absent from the allocations
  view, is matched by the later deallocation at its address in
  \<^verbatim>\<open>filterToDeallocationsMemory\<close>, and is consumed (not retained) in
  \<^verbatim>\<open>filterToRetainedAllocations\<close>.
\<close>

theorem zero_weight_event_pairs_but_is_no_allocation:
  "(na_weight t ! i = 0 \<longrightarrow>
      fst (deallocationsMemoryStep t i (m, xs)) (na_memoryAddress t ! i) = Some i \<and>
      fst (retainedAllocationsStep t i (m, ys)) (na_memoryAddress t ! i) = Some i)
   \<and> 0 \<notin> set (weightsOf (filterToAllocations T))
   \<and> filterToAllocations (Balanced zeroWeightAllocation) =
       Balanced getEmptyBalancedNativeAllocationsTable
   \<and> filterToDeallocationsMemory zeroWeightAllocation =
       Balanced \<lparr> na_time = [2], na_weight = [-100], na_weightType = ''bytes'',
                  na_stack = [Some 0], na_length = 1,
                  na_memoryAddress = [16], na_threadId = [1] \<rparr>
   \<and> filterToRetainedAllocations zeroWeightAllocation =
       Balanced getEmptyBalancedNativeAllocationsTable"
proof -
  have a: "na_weight t ! i = 0 \<longrightarrow>
      fst (deallocationsMemoryStep t i (m, xs)) (na_memoryAddress t ! i) = Some i \<and>
      fst (retainedAllocationsStep t i (m, ys)) (na_memoryAddress t ! i) = Some i"
    by (simp add: deallocationsMemoryStep_def retainedAllocationsStep_def Let_def)
  have b: "0 \<notin> set (weightsOf (filterToAllocations T))"
    using filterToAllocations_positive [of T] by auto
  have c: "filterToAllocations (Balanced zeroWeightAllocation) =
       Balanced getEmptyBalancedNativeAllocationsTable"
    by (simp add: filterToAllocations_def zeroWeightAllocation_def upt_2)
  have d: "filterToDeallocationsMemory zeroWeightAllocation =
       Balanced \<lparr> na_time = [2], na_weight = [-100], na_weightType = ''bytes'',
                  na_stack = [Some 0], na_length = 1,
                  na_memoryAddress = [16], na_threadId = [1] \<rparr>"
    by (simp add: filterToDeallocationsMemory_def zeroWeightAllocation_def upt_2
      deallocationsMemoryStep_def pushBalanced_def getEmptyBalancedNativeAllocationsTable_def
      Let_def)
  have e: "filterToRetainedAllocations zeroWeightAllocation =
       Balanced getEmptyBalancedNativeAllocationsTable"
    by (simp add: filterToRetainedAllocations_def zeroWeightAllocation_def upt_2
      retainedAllocationsStep_def Let_def)
  from a b c d e show ?thesis by blast
qed

theorem zero_weight_event_pairs_but_is_no_allocation_witness:
  "na_weight zeroWeightAllocation ! 0 = 0
   \<and> fst (deallocationsMemoryStep zeroWeightAllocation 0 (Map.empty, [])) 16 = Some 0
   \<and> fst (retainedAllocationsStep zeroWeightAllocation 0 (Map.empty, [])) 16 = Some 0
   \<and> 0 \<notin> set (weightsOf (filterToAllocations (Balanced zeroWeightAllocation)))"
proof -
  have w: "na_weight zeroWeightAllocation ! 0 = 0"
    by (simp add: zeroWeightAllocation_def)
  have a: "na_memoryAddress zeroWeightAllocation ! 0 = 16"
    by (simp add: zeroWeightAllocation_def)
  note t = zero_weight_event_pairs_but_is_no_allocation
    [of zeroWeightAllocation 0 Map.empty "[]" "[]" "Balanced zeroWeightAllocation"]
  from t w have "fst (deallocationsMemoryStep zeroWeightAllocation 0 (Map.empty, []))
        (na_memoryAddress zeroWeightAllocation ! 0) = Some 0"
    and "fst (retainedAllocationsStep zeroWeightAllocation 0 (Map.empty, []))
        (na_memoryAddress zeroWeightAllocation ! 0) = Some 0"
    and "0 \<notin> set (weightsOf (filterToAllocations (Balanced zeroWeightAllocation)))"
    by blast+
  with w a show ?thesis by simp
qed

section \<open>Invariants of the call-node builder\<close>

text \<open>
  Names for the values that one iteration of the loop computes from the stack at hand: the
  call node of its prefix, its function, its window id and the key it is looked up under.
\<close>

definition stackPrefixCallNode :: "StackTable \<Rightarrow> BuilderState \<Rightarrow> nat \<Rightarrow> int" where
  "stackPrefixCallNode stackTable b s =
     (case st_prefix stackTable ! s of
        None \<Rightarrow> -1
      | Some p \<Rightarrow> int (b_stackIndexToCallNodeIndex b ! p))"

definition stackFunc :: "StackTable \<Rightarrow> FrameTable \<Rightarrow> nat \<Rightarrow> nat" where
  "stackFunc stackTable frameTable s = ft_func frameTable ! (st_frame stackTable ! s)"

definition stackWindowID :: "StackTable \<Rightarrow> FrameTable \<Rightarrow> nat \<Rightarrow> nat" where
  "stackWindowID stackTable frameTable s =
     (case ft_innerWindowID frameTable ! (st_frame stackTable ! s) of None \<Rightarrow> 0 | Some w \<Rightarrow> w)"

definition stackKey :: "StackTable \<Rightarrow> FrameTable \<Rightarrow> nat \<Rightarrow> BuilderState \<Rightarrow> nat \<Rightarrow> int" where
  "stackKey stackTable frameTable funcCount b s =
     stackPrefixCallNode stackTable b s * int funcCount + int (stackFunc stackTable frameTable s)"

lemma callNodeStep_new:
  assumes "b_map b (stackKey st ft fc b s) = None"
  shows "callNodeStep st ft fc dc s b =
     b\<lparr> b_map := (b_map b)(stackKey st ft fc b s \<mapsto> b_length b),
        b_prefix := b_prefix b @ [stackPrefixCallNode st b s],
        b_func := b_func b @ [stackFunc st ft s],
        b_category := b_category b @ [st_category st ! s],
        b_subcategory := b_subcategory b @ [st_subcategory st ! s],
        b_innerWindowID := b_innerWindowID b @ [stackWindowID st ft s],
        b_depth := b_depth b @ [if stackPrefixCallNode st b s = -1 then 0
                                else b_depth b ! nat (stackPrefixCallNode st b s) + 1],
        b_length := b_length b + 1,
        b_stackIndexToCallNodeIndex :=
          (b_stackIndexToCallNodeIndex b)[s := toUint32 (b_length b)] \<rparr>"
  using assms
  by (simp add: callNodeStep_def addCallNode_def stackKey_def stackPrefixCallNode_def
      stackFunc_def stackWindowID_def Let_def)

lemma callNodeStep_found:
  assumes "b_map b (stackKey st ft fc b s) = Some n"
  shows "callNodeStep st ft fc dc s b =
     b\<lparr> b_category :=
          (if b_category b ! n \<noteq> st_category st ! s then (b_category b)[n := dc]
           else b_category b),
        b_subcategory :=
          (if b_category b ! n \<noteq> st_category st ! s \<or> b_subcategory b ! n \<noteq> st_subcategory st ! s
           then (b_subcategory b)[n := 0] else b_subcategory b),
        b_stackIndexToCallNodeIndex := (b_stackIndexToCallNodeIndex b)[s := toUint32 n] \<rparr>"
  using assms
  by (simp add: callNodeStep_def stackKey_def stackPrefixCallNode_def
      stackFunc_def Let_def)


text \<open>
  The loop invariant after \<open>k\<close> stacks: the six arrays have \<^verbatim>\<open>length\<close> entries, every stack
  seen so far is mapped to a call node, a prefix is \<^verbatim>\<open>-1\<close> or an earlier call node, depths
  follow prefixes, and the map holds exactly the pairs (key of node \<open>i\<close>, \<open>i\<close>).
\<close>

definition builder_inv :: "nat \<Rightarrow> nat \<Rightarrow> nat \<Rightarrow> BuilderState \<Rightarrow> bool" where
  "builder_inv n fc k b \<longleftrightarrow>
     length (b_prefix b) = b_length b \<and> length (b_func b) = b_length b \<and>
     length (b_category b) = b_length b \<and> length (b_subcategory b) = b_length b \<and>
     length (b_innerWindowID b) = b_length b \<and> length (b_depth b) = b_length b \<and>
     length (b_stackIndexToCallNodeIndex b) = n \<and>
     b_length b \<le> k \<and>
     (\<forall>s < k. b_stackIndexToCallNodeIndex b ! s < b_length b) \<and>
     (\<forall>i < b_length b. -1 \<le> b_prefix b ! i \<and> b_prefix b ! i < int i) \<and>
     (\<forall>i < b_length b. b_depth b ! i =
        (if b_prefix b ! i = -1 then 0 else b_depth b ! nat (b_prefix b ! i) + 1)) \<and>
     (\<forall>i < b_length b. b_func b ! i < fc) \<and>
     (\<forall>key i. b_map b key = Some i \<longrightarrow>
        i < b_length b \<and> key = b_prefix b ! i * int fc + int (b_func b ! i)) \<and>
     (\<forall>i < b_length b. b_map b (b_prefix b ! i * int fc + int (b_func b ! i)) = Some i)"

lemma toUint32_id: "x < 2 ^ 32 \<Longrightarrow> toUint32 x = x"
  by (simp add: toUint32_def)

lemma wf_prefix_callnode:
  assumes wf: "wf_stackTable st ft fn dc" and k: "k < st_length st"
    and inv: "builder_inv (st_length st) (fn_length fn) k b"
  shows "-1 \<le> stackPrefixCallNode st b k \<and> stackPrefixCallNode st b k < int (b_length b)"
proof (cases "st_prefix st ! k")
  case None
  then show ?thesis by (simp add: stackPrefixCallNode_def)
next
  case (Some p)
  with wf k have "p < k" by (auto simp: wf_stackTable_def)
  with inv have "b_stackIndexToCallNodeIndex b ! p < b_length b"
    by (simp add: builder_inv_def)
  with Some show ?thesis by (simp add: stackPrefixCallNode_def)
qed

lemma wf_stackFunc:
  assumes wf: "wf_stackTable st ft fn dc" and k: "k < st_length st"
  shows "stackFunc st ft k < fn_length fn"
  using assms by (simp add: wf_stackTable_def stackFunc_def)

lemma builder_invD:
  assumes "builder_inv n fc k b"
  shows "length (b_prefix b) = b_length b" "length (b_func b) = b_length b"
    "length (b_category b) = b_length b" "length (b_subcategory b) = b_length b"
    "length (b_innerWindowID b) = b_length b" "length (b_depth b) = b_length b"
    "length (b_stackIndexToCallNodeIndex b) = n"
    "b_length b \<le> k"
    "\<And>s. s < k \<Longrightarrow> b_stackIndexToCallNodeIndex b ! s < b_length b"
    "\<And>i. i < b_length b \<Longrightarrow> -1 \<le> b_prefix b ! i"
    "\<And>i. i < b_length b \<Longrightarrow> b_prefix b ! i < int i"
    "\<And>i. i < b_length b \<Longrightarrow> b_depth b ! i =
        (if b_prefix b ! i = -1 then 0 else b_depth b ! nat (b_prefix b ! i) + 1)"
    "\<And>i. i < b_length b \<Longrightarrow> b_func b ! i < fc"
    "\<And>key i. b_map b key = Some i \<Longrightarrow> i < b_length b"
    "\<And>key i. b_map b key = Some i \<Longrightarrow> key = b_prefix b ! i * int fc + int (b_func b ! i)"
    "\<And>i. i < b_length b \<Longrightarrow> b_map b (b_prefix b ! i * int fc + int (b_func b ! i)) = Some i"
  using assms unfolding builder_inv_def by blast+

lemma builder_invI:
  assumes "length (b_prefix b) = b_length b" "length (b_func b) = b_length b"
    "length (b_category b) = b_length b" "length (b_subcategory b) = b_length b"
    "length (b_innerWindowID b) = b_length b" "length (b_depth b) = b_length b"
    "length (b_stackIndexToCallNodeIndex b) = n"
    "b_length b \<le> k"
    "\<And>s. s < k \<Longrightarrow> b_stackIndexToCallNodeIndex b ! s < b_length b"
    "\<And>i. i < b_length b \<Longrightarrow> -1 \<le> b_prefix b ! i"
    "\<And>i. i < b_length b \<Longrightarrow> b_prefix b ! i < int i"
    "\<And>i. i < b_length b \<Longrightarrow> b_depth b ! i =
        (if b_prefix b ! i = -1 then 0 else b_depth b ! nat (b_prefix b ! i) + 1)"
    "\<And>i. i < b_length b \<Longrightarrow> b_func b ! i < fc"
    "\<And>key i. b_map b key = Some i \<Longrightarrow> i < b_length b"
    "\<And>key i. b_map b key = Some i \<Longrightarrow> key = b_prefix b ! i * int fc + int (b_func b ! i)"
    "\<And>i. i < b_length b \<Longrightarrow> b_map b (b_prefix b ! i * int fc + int (b_func b ! i)) = Some i"
  shows "builder_inv n fc k b"
  unfolding builder_inv_def using assms by blast

lemma builder_inv_step_new:
  assumes wf: "wf_stackTable st ft fn dc" and k: "k < st_length st"
    and inv: "builder_inv (st_length st) (fn_length fn) k b"
    and new: "b_map b (stackKey st ft (fn_length fn) b k) = None"
  shows "builder_inv (st_length st) (fn_length fn) (Suc k)
           (callNodeStep st ft (fn_length fn) dc k b)"
proof -
  let ?p = "stackPrefixCallNode st b k"
  let ?f = "stackFunc st ft k"
  let ?L = "b_length b"
  let ?fc = "fn_length fn"
  note I = builder_invD [OF inv]
  have p: "-1 \<le> ?p" "?p < int ?L" using wf_prefix_callnode [OF wf k inv] by auto
  have f: "?f < ?fc" by (rule wf_stackFunc [OF wf k])
  have "st_length st < 2 ^ 31" using wf by (simp add: wf_stackTable_def)
  with I(8) k have u: "toUint32 ?L = ?L" by (intro toUint32_id) simp
  have key: "stackKey st ft ?fc b k = ?p * int ?fc + int ?f"
    by (simp add: stackKey_def)
  define b' where "b' = callNodeStep st ft ?fc dc k b"
  have F: "b_prefix b' = b_prefix b @ [?p]" "b_func b' = b_func b @ [?f]"
    "b_category b' = b_category b @ [st_category st ! k]"
    "b_subcategory b' = b_subcategory b @ [st_subcategory st ! k]"
    "b_innerWindowID b' = b_innerWindowID b @ [stackWindowID st ft k]"
    "b_depth b' = b_depth b @ [if ?p = -1 then 0 else b_depth b ! nat ?p + 1]"
    "b_length b' = Suc ?L"
    "b_stackIndexToCallNodeIndex b' = (b_stackIndexToCallNodeIndex b)[k := ?L]"
    "b_map b' = (b_map b)(?p * int ?fc + int ?f \<mapsto> ?L)"
    unfolding b'_def callNodeStep_new [OF new] u key by simp_all
  have new': "b_map b (?p * int ?fc + int ?f) = None" using new key by simp
  show ?thesis
    unfolding b'_def [symmetric]
  proof (rule builder_invI)
    show "length (b_prefix b') = b_length b'" "length (b_func b') = b_length b'"
      "length (b_category b') = b_length b'" "length (b_subcategory b') = b_length b'"
      "length (b_innerWindowID b') = b_length b'" "length (b_depth b') = b_length b'"
      "length (b_stackIndexToCallNodeIndex b') = st_length st"
      "b_length b' \<le> Suc k"
      using I(1-8) by (simp_all add: F)
  next
    fix s assume "s < Suc k"
    then show "b_stackIndexToCallNodeIndex b' ! s < b_length b'"
      using I(7) I(9) [of s] k by (cases "s = k") (auto simp: F nth_list_update less_Suc_eq)
  next
    fix i assume "i < b_length b'"
    then show "-1 \<le> b_prefix b' ! i"
      using I(1) I(10) [of i] p by (cases "i = ?L") (auto simp: F nth_append)
  next
    fix i assume "i < b_length b'"
    then show "b_prefix b' ! i < int i"
      using I(1) I(11) [of i] p by (cases "i = ?L") (auto simp: F nth_append)
  next
    fix i assume i: "i < b_length b'"
    show "b_depth b' ! i =
        (if b_prefix b' ! i = -1 then 0 else b_depth b' ! nat (b_prefix b' ! i) + 1)"
    proof (cases "i = ?L")
      case True
      then show ?thesis using I(1,6) p by (auto simp: F nth_append)
    next
      case False
      with i have il: "i < ?L" by (simp add: F)
      with I(10) [of i] I(11) [of i] have "b_prefix b ! i \<noteq> -1 \<Longrightarrow> nat (b_prefix b ! i) < ?L" by linarith
      with il I(12) [of i] I(1,6) show ?thesis by (auto simp: F nth_append)
    qed
  next
    fix i assume "i < b_length b'"
    then show "b_func b' ! i < ?fc"
      using I(2) I(13) [of i] f by (cases "i = ?L") (auto simp: F nth_append)
  next
    fix key i assume "b_map b' key = Some i"
    then show "i < b_length b'"
      using I(14) [of key i] by (auto simp: F split: if_splits)
  next
    fix key i assume m: "b_map b' key = Some i"
    show "key = b_prefix b' ! i * int ?fc + int (b_func b' ! i)"
    proof (cases "key = ?p * int ?fc + int ?f")
      case True
      with m have "i = ?L" by (simp add: F)
      with True I(1,2) show ?thesis by (simp add: F nth_append)
    next
      case False
      with m have "b_map b key = Some i" by (simp add: F)
      with I(14) [of key i] I(15) [of key i] I(1,2) show ?thesis by (simp add: F nth_append)
    qed
  next
    fix i assume i: "i < b_length b'"
    show "b_map b' (b_prefix b' ! i * int ?fc + int (b_func b' ! i)) = Some i"
    proof (cases "i = ?L")
      case True
      with I(1,2) show ?thesis by (simp add: F nth_append)
    next
      case False
      with i have il: "i < ?L" by (simp add: F)
      from I(16) [OF il] new' have "b_prefix b ! i * int ?fc + int (b_func b ! i) \<noteq> ?p * int ?fc + int ?f"
        by auto
      with il I(16) [OF il] I(1,2) show ?thesis by (simp add: F nth_append)
    qed
  qed
qed

lemma builder_inv_step_found:
  assumes wf: "wf_stackTable st ft fn dc" and k: "k < st_length st"
    and inv: "builder_inv (st_length st) (fn_length fn) k b"
    and found: "b_map b (stackKey st ft (fn_length fn) b k) = Some n"
  shows "builder_inv (st_length st) (fn_length fn) (Suc k)
           (callNodeStep st ft (fn_length fn) dc k b)"
proof -
  let ?L = "b_length b"
  let ?fc = "fn_length fn"
  note I = builder_invD [OF inv]
  have n: "n < ?L" using I(14) [OF found] .
  have "st_length st < 2 ^ 31" using wf by (simp add: wf_stackTable_def)
  with I(8) k n have u: "toUint32 n = n" by (intro toUint32_id) simp
  define b' where "b' = callNodeStep st ft ?fc dc k b"
  have F: "b_prefix b' = b_prefix b" "b_func b' = b_func b"
    "length (b_category b') = length (b_category b)"
    "length (b_subcategory b') = length (b_subcategory b)"
    "b_innerWindowID b' = b_innerWindowID b"
    "b_depth b' = b_depth b"
    "b_length b' = ?L"
    "b_stackIndexToCallNodeIndex b' = (b_stackIndexToCallNodeIndex b)[k := n]"
    "b_map b' = b_map b"
    unfolding b'_def callNodeStep_found [OF found] u by simp_all
  show ?thesis
    unfolding b'_def [symmetric]
  proof (rule builder_invI)
    show "length (b_prefix b') = b_length b'" "length (b_func b') = b_length b'"
      "length (b_category b') = b_length b'" "length (b_subcategory b') = b_length b'"
      "length (b_innerWindowID b') = b_length b'" "length (b_depth b') = b_length b'"
      "length (b_stackIndexToCallNodeIndex b') = st_length st"
      "b_length b' \<le> Suc k"
      using I(1-8) by (simp_all add: F)
  next
    fix s assume "s < Suc k"
    then show "b_stackIndexToCallNodeIndex b' ! s < b_length b'"
      using I(7) I(9) [of s] k n by (cases "s = k") (auto simp: F nth_list_update less_Suc_eq)
  qed (use I in \<open>simp_all add: F\<close>)
qed

lemma builder_inv_step:
  assumes wf: "wf_stackTable st ft fn dc" and k: "k < st_length st"
    and inv: "builder_inv (st_length st) (fn_length fn) k b"
  shows "builder_inv (st_length st) (fn_length fn) (Suc k)
           (callNodeStep st ft (fn_length fn) dc k b)"
proof (cases "b_map b (stackKey st ft (fn_length fn) b k)")
  case None
  then show ?thesis by (rule builder_inv_step_new [OF wf k inv])
next
  case (Some n)
  then show ?thesis by (rule builder_inv_step_found [OF wf k inv])
qed

lemma runBuilder_Suc:
  "runBuilder st ft fc dc (Suc n) = callNodeStep st ft fc dc n (runBuilder st ft fc dc n)"
  by (simp add: runBuilder_def)

lemma builder_inv_init:
  "builder_inv (st_length st) fc 0 (initialBuilderState st)"
  by (simp add: builder_inv_def initialBuilderState_def)

lemma builder_inv_run:
  assumes wf: "wf_stackTable st ft fn dc" and k: "k \<le> st_length st"
  shows "builder_inv (st_length st) (fn_length fn) k (runBuilder st ft (fn_length fn) dc k)"
  using k
proof (induction k)
  case 0
  then show ?case using builder_inv_init by (simp add: runBuilder_def)
next
  case (Suc k)
  then show ?case
    unfolding runBuilder_Suc by (intro builder_inv_step [OF wf]) simp_all
qed


lemma toInt32_id: "- (2 ^ 31) \<le> x \<Longrightarrow> x < 2 ^ 31 \<Longrightarrow> toInt32 x = x"
  unfolding toInt32_def sint_sbintrunc' by (simp add: signed_take_bit_int_eq_self)

lemma toInt32_int: "n < 2 ^ 31 \<Longrightarrow> toInt32 (int n) = int n"
  by (rule toInt32_id) simp_all

text \<open>
  The shape of a call-node table that the functions on call nodes rely on, and the
  property that no two call nodes have the same prefix and function.
\<close>

definition wf_callNodeTable :: "CallNodeTable \<Rightarrow> bool" where
  "wf_callNodeTable T \<longleftrightarrow>
     length (cn_prefix T) = cn_length T \<and> length (cn_func T) = cn_length T \<and>
     length (cn_depth T) = cn_length T \<and>
     (\<forall>i < cn_length T. -1 \<le> cn_prefix T ! i \<and> cn_prefix T ! i < int i) \<and>
     (\<forall>i < cn_length T. cn_depth T ! i =
        (if cn_prefix T ! i = -1 then 0 else cn_depth T ! nat (cn_prefix T ! i) + 1))"

definition distinct_callNodes :: "CallNodeTable \<Rightarrow> bool" where
  "distinct_callNodes T \<longleftrightarrow>
     (\<forall>i < cn_length T. \<forall>j < cn_length T.
        cn_prefix T ! i = cn_prefix T ! j \<and> cn_func T ! i = cn_func T ! j \<longrightarrow> i = j)"

lemma getCallNodeInfo_fields:
  assumes wf: "wf_stackTable st ft fn dc"
  defines "b \<equiv> runBuilder st ft (fn_length fn) dc (st_length st)"
  defines "T \<equiv> callNodeTable (getCallNodeInfo st ft fn dc)"
  shows "cn_length T = b_length b" "cn_prefix T = b_prefix b" "cn_func T = map int (b_func b)"
    "cn_depth T = b_depth b"
    "stackIndexToCallNodeIndex (getCallNodeInfo st ft fn dc) = b_stackIndexToCallNodeIndex b"
proof -
  have inv: "builder_inv (st_length st) (fn_length fn) (st_length st) b"
    unfolding b_def by (rule builder_inv_run [OF wf]) simp
  note I = builder_invD [OF inv]
  have n: "st_length st < 2 ^ 31" and fc: "fn_length fn < 2 ^ 31"
    using wf by (simp_all add: wf_stackTable_def)
  show "cn_length T = b_length b" "cn_depth T = b_depth b"
    "stackIndexToCallNodeIndex (getCallNodeInfo st ft fn dc) = b_stackIndexToCallNodeIndex b"
    by (simp_all add: T_def b_def getCallNodeInfo_def Let_def)
  have "map toInt32 (b_prefix b) = b_prefix b"
  proof (rule map_idI)
    fix x assume "x \<in> set (b_prefix b)"
    then obtain i where i: "i < b_length b" and x: "x = b_prefix b ! i"
      using I(1) by (auto simp: in_set_conv_nth)
    from n have "int (st_length st) < 2147483648" by simp
    with I(10) [OF i] I(11) [OF i] i I(8) have "- 2147483648 \<le> x" "x < 2147483648"
      unfolding x by linarith+
    then have "- (2 ^ 31) \<le> x" "x < 2 ^ 31" by simp_all
    then show "toInt32 x = x" by (rule toInt32_id)
  qed
  then show "cn_prefix T = b_prefix b"
    by (simp add: T_def b_def getCallNodeInfo_def Let_def)
  have "map (toInt32 \<circ> int) (b_func b) = map int (b_func b)"
  proof (rule map_cong [OF refl])
    fix x assume "x \<in> set (b_func b)"
    then obtain i where i: "i < b_length b" and x: "x = b_func b ! i"
      using I(2) by (auto simp: in_set_conv_nth)
    from I(13) [OF i] fc have "x < 2 ^ 31" unfolding x by linarith
    then show "(toInt32 \<circ> int) x = int x" by (simp add: toInt32_int)
  qed
  then show "cn_func T = map int (b_func b)"
    by (simp add: T_def b_def getCallNodeInfo_def Let_def)
qed

lemma getCallNodeInfo_wf:
  assumes wf: "wf_stackTable st ft fn dc"
  shows "wf_callNodeTable (callNodeTable (getCallNodeInfo st ft fn dc))"
proof -
  let ?b = "runBuilder st ft (fn_length fn) dc (st_length st)"
  have inv: "builder_inv (st_length st) (fn_length fn) (st_length st) ?b"
    by (rule builder_inv_run [OF wf]) simp
  note I = builder_invD [OF inv]
  note F = getCallNodeInfo_fields [OF wf]
  show ?thesis
    unfolding wf_callNodeTable_def F
    using I(1) I(2) I(6) I(10) I(11) I(12) by simp
qed

lemma getCallNodeInfo_distinct:
  assumes wf: "wf_stackTable st ft fn dc"
  shows "distinct_callNodes (callNodeTable (getCallNodeInfo st ft fn dc))"
proof -
  let ?b = "runBuilder st ft (fn_length fn) dc (st_length st)"
  have inv: "builder_inv (st_length st) (fn_length fn) (st_length st) ?b"
    by (rule builder_inv_run [OF wf]) simp
  note I = builder_invD [OF inv]
  note F = getCallNodeInfo_fields [OF wf]
  show ?thesis
    unfolding distinct_callNodes_def F
  proof (intro allI impI)
    fix i j assume i: "i < b_length ?b" and j: "j < b_length ?b"
      and e: "b_prefix ?b ! i = b_prefix ?b ! j \<and> map int (b_func ?b) ! i = map int (b_func ?b) ! j"
    have "map int (b_func ?b) ! i = int (b_func ?b ! i)"
      "map int (b_func ?b) ! j = int (b_func ?b ! j)"
      using i j I(2) by simp_all
    with e have "int (b_func ?b ! i) = int (b_func ?b ! j)" by (simp only:)
    then have f: "b_func ?b ! i = b_func ?b ! j" by (simp only: of_nat_eq_iff)
    from e have p: "b_prefix ?b ! i = b_prefix ?b ! j" by (rule conjunct1)
    from I(16) [OF i] have "b_map ?b (b_prefix ?b ! j * int (fn_length fn) + int (b_func ?b ! j)) = Some i"
      unfolding p f .
    with I(16) [OF j] show "i = j" by (simp only: option.inject)
  qed
qed

text \<open>
  C1. For a well-formed stack table, in the call-node table that \<^verbatim>\<open>getCallNodeInfo\<close> returns
  every index \<open>i\<close> below \<^verbatim>\<open>length\<close> is a row of \<^verbatim>\<open>prefix\<close> and of \<^verbatim>\<open>depth\<close>; if
  \<^verbatim>\<open>prefix[i]\<close> is not \<^verbatim>\<open>-1\<close> it is an index below \<open>i\<close> and
  \<^verbatim>\<open>depth[prefix[i]] + 1 == depth[i]\<close>; if it is \<^verbatim>\<open>-1\<close> then \<^verbatim>\<open>depth[i] == 0\<close>.
\<close>

theorem getCallNodeInfo_prefix_depth:
  assumes "wf_stackTable stackTable frameTable funcTable defaultCategory"
    and "T = callNodeTable (getCallNodeInfo stackTable frameTable funcTable defaultCategory)"
    and "i < cn_length T"
  shows "length (cn_prefix T) = cn_length T \<and> length (cn_depth T) = cn_length T \<and>
     (cn_prefix T ! i \<noteq> -1 \<longrightarrow>
        0 \<le> cn_prefix T ! i \<and> cn_prefix T ! i < int i \<and>
        cn_depth T ! nat (cn_prefix T ! i) + 1 = cn_depth T ! i) \<and>
     (cn_prefix T ! i = -1 \<longrightarrow> cn_depth T ! i = 0)"
proof -
  have "wf_callNodeTable T" unfolding assms(2) by (rule getCallNodeInfo_wf [OF assms(1)])
  then have l: "length (cn_prefix T) = cn_length T" "length (cn_depth T) = cn_length T"
    and p: "-1 \<le> cn_prefix T ! i" "cn_prefix T ! i < int i"
    and d: "cn_depth T ! i =
        (if cn_prefix T ! i = -1 then 0 else cn_depth T ! nat (cn_prefix T ! i) + 1)"
    using assms(3) by (simp_all add: wf_callNodeTable_def)
  from l p d show ?thesis by auto
qed


subsection \<open>An example: six stacks, three call nodes\<close>

text \<open>
  Stacks 0 and 4 are roots in function 0 with the same category and subcategory; stacks 1
  and 2 are children of stack 0 in function 1 (through two frames) with different
  categories; stacks 3 and 5 are children of stacks 1 and 2 in function 1 with the same
  category and different subcategories. The default category is 7.
\<close>

definition exStackTable :: StackTable where
  "exStackTable =
     \<lparr> st_frame = [0, 1, 2, 1, 0, 2], st_category = [1, 1, 2, 1, 1, 1],
       st_subcategory = [6, 3, 3, 4, 6, 5],
       st_prefix = [None, Some 0, Some 0, Some 1, None, Some 2], st_length = 6 \<rparr>"

definition exFrameTable :: FrameTable where
  "exFrameTable =
     \<lparr> ft_func = [0, 1, 1], ft_innerWindowID = [None, Some 5, Some 5],
       ft_implementation = [None, None, None], ft_length = 3 \<rparr>"

definition exFuncTable :: FuncTable where
  "exFuncTable = \<lparr> fn_isJS = [False, True], fn_length = 2 \<rparr>"

lemma exStackTable_wf: "wf_stackTable exStackTable exFrameTable exFuncTable 7"
  by (simp add: wf_stackTable_def exStackTable_def exFrameTable_def exFuncTable_def
      all_less_upt upt_3 upt_6)

lemma exStackTable_callNodeInfo:
  "getCallNodeInfo exStackTable exFrameTable exFuncTable 7 =
     \<lparr> callNodeTable =
         \<lparr> cn_prefix = [-1, 0, 1], cn_func = [0, 1, 1], cn_category = [1, 7, 1],
           cn_subcategory = [6, 0, 0], cn_innerWindowID = [0, 5, 5], cn_depth = [0, 1, 2],
           cn_length = 3 \<rparr>,
       stackIndexToCallNodeIndex = [0, 1, 1, 2, 0, 2] \<rparr>"
  by (simp add: getCallNodeInfo_def runBuilder_def exStackTable_def exFrameTable_def
      exFuncTable_def initialBuilderState_def callNodeStep_def addCallNode_def Let_def upt_6
      replicate_6 toUint32_def toInt32_id)

theorem getCallNodeInfo_prefix_depth_witness:
  "wf_stackTable exStackTable exFrameTable exFuncTable 7 \<and>
   2 < cn_length (callNodeTable (getCallNodeInfo exStackTable exFrameTable exFuncTable 7)) \<and>
   cn_prefix (callNodeTable (getCallNodeInfo exStackTable exFrameTable exFuncTable 7)) ! 2 = 1 \<and>
   cn_depth (callNodeTable (getCallNodeInfo exStackTable exFrameTable exFuncTable 7)) ! 1 + 1 =
     cn_depth (callNodeTable (getCallNodeInfo exStackTable exFrameTable exFuncTable 7)) ! 2"
proof -
  let ?T = "callNodeTable (getCallNodeInfo exStackTable exFrameTable exFuncTable 7)"
  have len: "2 < cn_length ?T" and p: "cn_prefix ?T ! 2 = 1"
    by (simp_all add: exStackTable_callNodeInfo)
  from getCallNodeInfo_prefix_depth [OF exStackTable_wf refl len] p
  have "cn_depth ?T ! 1 + 1 = cn_depth ?T ! 2" by simp
  with exStackTable_wf len p show ?thesis by simp
qed

section \<open>Categories of collapsed stacks\<close>

text \<open>
  The update that the loop of \<^verbatim>\<open>getCallNodeInfo\<close> makes to the recorded pair (category,
  subcategory) of a call node that it finds again, for a stack with the pair \<open>x\<close>; and what
  a recorded pair has to do with the set \<open>P\<close> of the pairs of all stacks of the node.
\<close>

definition mergeCategory :: "nat \<Rightarrow> nat \<times> nat \<Rightarrow> nat \<times> nat \<Rightarrow> nat \<times> nat" where
  "mergeCategory dc x node =
     (if fst node \<noteq> fst x then (dc, 0)
      else if snd node \<noteq> snd x then (fst node, 0)
      else node)"

definition catSpec :: "nat \<Rightarrow> (nat \<times> nat) set \<Rightarrow> nat \<times> nat \<Rightarrow> bool" where
  "catSpec dc P node \<longleftrightarrow>
     (\<forall>c. (\<forall>p\<in>P. fst p = c) \<longrightarrow> fst node = c) \<and>
     ((\<exists>p\<in>P. \<exists>q\<in>P. fst p \<noteq> fst q) \<longrightarrow> node = (dc, 0)) \<and>
     (\<forall>u. (\<forall>p\<in>P. snd p = u) \<and> (\<forall>p\<in>P. \<forall>q\<in>P. fst p = fst q) \<longrightarrow> snd node = u) \<and>
     ((\<exists>p\<in>P. \<exists>q\<in>P. snd p \<noteq> snd q) \<longrightarrow> snd node = 0)"

lemma catSpec_single: "catSpec dc {x} x"
  by (simp add: catSpec_def)

lemma catSpec_merge:
  assumes P: "P \<noteq> {}" and spec: "catSpec dc P node"
  shows "catSpec dc (insert x P) (mergeCategory dc x node)"
proof -
  obtain C U where node: "node = (C, U)" by (cases node)
  from P obtain p0 where p0: "p0 \<in> P" by auto
  from spec have s:
    "(\<forall>c. (\<forall>p\<in>P. fst p = c) \<longrightarrow> C = c) \<and>
     ((\<exists>p\<in>P. \<exists>q\<in>P. fst p \<noteq> fst q) \<longrightarrow> (C, U) = (dc, 0)) \<and>
     (\<forall>u. (\<forall>p\<in>P. snd p = u) \<and> (\<forall>p\<in>P. \<forall>q\<in>P. fst p = fst q) \<longrightarrow> U = u) \<and>
     ((\<exists>p\<in>P. \<exists>q\<in>P. snd p \<noteq> snd q) \<longrightarrow> U = 0)"
    unfolding catSpec_def node fst_conv snd_conv .
  note s_1 = s [THEN conjunct1]
    and s_2 = s [THEN conjunct2, THEN conjunct1]
    and s_3 = s [THEN conjunct2, THEN conjunct2, THEN conjunct1]
    and s_4 = s [THEN conjunct2, THEN conjunct2, THEN conjunct2]
  have s1: "C = c" if "\<forall>p\<in>P. fst p = c" for c
    using s_1 that by blast
  have s2: "C = dc \<and> U = 0" if "\<exists>p\<in>P. \<exists>q\<in>P. fst p \<noteq> fst q"
    using s_2 that by blast
  have s3: "U = u" if "\<forall>p\<in>P. snd p = u" "\<forall>p\<in>P. \<forall>q\<in>P. fst p = fst q" for u
    using s_3 that by blast
  have s4: "U = 0" if "\<exists>p\<in>P. \<exists>q\<in>P. snd p \<noteq> snd q"
    using s_4 that by blast
  let ?C = "fst (mergeCategory dc x node)" and ?U = "snd (mergeCategory dc x node)"
  have C': "?C = (if C \<noteq> fst x then dc else C)"
    and U': "?U = (if C \<noteq> fst x \<or> U \<noteq> snd x then 0 else U)"
    by (simp_all add: mergeCategory_def node)
  have g1: "?C = c" if a: "\<forall>p\<in>insert x P. fst p = c" for c
  proof -
    from a have "fst x = c" by blast
    moreover from a have "\<forall>p\<in>P. fst p = c" by blast
    then have "C = c" by (rule s1)
    ultimately show ?thesis by (simp add: C')
  qed
  have g2: "?C = dc \<and> ?U = 0" if d: "\<exists>p\<in>insert x P. \<exists>q\<in>insert x P. fst p \<noteq> fst q"
  proof (cases "\<exists>p\<in>P. \<exists>q\<in>P. fst p \<noteq> fst q")
    case True
    from s2 [OF True] show ?thesis by (simp add: C' U')
  next
    case False
    then have same: "\<forall>p\<in>P. fst p = fst p0" using p0 by blast
    from d False have "\<exists>p\<in>P. fst p \<noteq> fst x" by (metis insert_iff)
    with same have "fst p0 \<noteq> fst x" by metis
    moreover from s1 [OF same] have "C = fst p0" .
    ultimately show ?thesis by (simp add: C' U')
  qed
  have g3: "?U = u" if a: "\<forall>p\<in>insert x P. snd p = u"
    and b: "\<forall>p\<in>insert x P. \<forall>q\<in>insert x P. fst p = fst q" for u
  proof -
    from a have xu: "snd x = u" by blast
    from a have pu: "\<forall>p\<in>P. snd p = u" by blast
    from b have pc: "\<forall>p\<in>P. \<forall>q\<in>P. fst p = fst q" by blast
    from b have px: "\<forall>p\<in>P. fst p = fst x" by blast
    from s1 [OF px] s3 [OF pu pc] xu show ?thesis by (simp add: U')
  qed
  have g4: "?U = 0" if d: "\<exists>p\<in>insert x P. \<exists>q\<in>insert x P. snd p \<noteq> snd q"
  proof (cases "C \<noteq> fst x \<or> U \<noteq> snd x")
    case True
    then show ?thesis by (simp add: U')
  next
    case eq: False
    show ?thesis
    proof (cases "\<exists>p\<in>P. \<exists>q\<in>P. snd p \<noteq> snd q")
      case True
      from s4 [OF True] show ?thesis by (simp add: U')
    next
      case sameU: False
      then have su: "\<forall>p\<in>P. snd p = snd p0" using p0 by blast
      from d sameU have "\<exists>p\<in>P. snd p \<noteq> snd x" by (metis insert_iff)
      with su have ne: "snd p0 \<noteq> snd x" by metis
      show ?thesis
      proof (cases "\<exists>p\<in>P. \<exists>q\<in>P. fst p \<noteq> fst q")
        case True
        from s2 [OF True] show ?thesis by (simp add: U')
      next
        case False
        then have "\<forall>p\<in>P. \<forall>q\<in>P. fst p = fst q" by blast
        from s3 [OF su this] have "U = snd p0" .
        with ne eq show ?thesis by simp
      qed
    qed
  qed
  show ?thesis
    unfolding catSpec_def
  proof (intro conjI allI impI)
    fix c assume "\<forall>p\<in>insert x P. fst p = c"
    then show "fst (mergeCategory dc x node) = c" by (rule g1)
  next
    assume "\<exists>p\<in>insert x P. \<exists>q\<in>insert x P. fst p \<noteq> fst q"
    from g2 [OF this] show "mergeCategory dc x node = (dc, 0)" by (simp add: prod_eq_iff)
  next
    fix u assume "(\<forall>p\<in>insert x P. snd p = u) \<and> (\<forall>p\<in>insert x P. \<forall>q\<in>insert x P. fst p = fst q)"
    then show "snd (mergeCategory dc x node) = u" using g3 by blast
  next
    assume "\<exists>p\<in>insert x P. \<exists>q\<in>insert x P. snd p \<noteq> snd q"
    then show "snd (mergeCategory dc x node) = 0" by (rule g4)
  qed
qed


text \<open>The pairs of the stacks below \<open>k\<close> that the mapping \<open>m\<close> sends to call node \<open>n\<close>.\<close>

definition stackPairs :: "StackTable \<Rightarrow> nat list \<Rightarrow> nat \<Rightarrow> nat \<Rightarrow> (nat \<times> nat) set" where
  "stackPairs st m k n =
     (\<lambda>s. (st_category st ! s, st_subcategory st ! s)) ` {s. s < k \<and> m ! s = n}"

lemma stackPairs_Suc:
  assumes "k < length m"
  shows "stackPairs st (m[k := j]) (Suc k) n =
     (if n = j then insert (st_category st ! k, st_subcategory st ! k) (stackPairs st m k n)
      else stackPairs st m k n)"
proof -
  have "{s. s < Suc k \<and> m[k := j] ! s = n} =
      (if n = j then insert k {s. s < k \<and> m ! s = n} else {s. s < k \<and> m ! s = n})"
    using assms by (auto simp: nth_list_update less_Suc_eq)
  then show ?thesis by (simp add: stackPairs_def)
qed

definition category_inv :: "StackTable \<Rightarrow> nat \<Rightarrow> nat \<Rightarrow> BuilderState \<Rightarrow> bool" where
  "category_inv st dc k b \<longleftrightarrow>
     (\<forall>n < b_length b.
        stackPairs st (b_stackIndexToCallNodeIndex b) k n \<noteq> {} \<and>
        catSpec dc (stackPairs st (b_stackIndexToCallNodeIndex b) k n)
          (b_category b ! n, b_subcategory b ! n))"

lemma category_inv_step:
  assumes wf: "wf_stackTable st ft fn dc" and k: "k < st_length st"
    and inv: "builder_inv (st_length st) (fn_length fn) k b"
    and cinv: "category_inv st dc k b"
  shows "category_inv st dc (Suc k) (callNodeStep st ft (fn_length fn) dc k b)"
proof -
  let ?L = "b_length b"
  let ?fc = "fn_length fn"
  let ?m = "b_stackIndexToCallNodeIndex b"
  let ?x = "(st_category st ! k, st_subcategory st ! k)"
  note I = builder_invD [OF inv]
  have km: "k < length ?m" using I(7) k by simp
  have C: "\<And>n. n < ?L \<Longrightarrow> stackPairs st ?m k n \<noteq> {}"
    "\<And>n. n < ?L \<Longrightarrow> catSpec dc (stackPairs st ?m k n) (b_category b ! n, b_subcategory b ! n)"
    using cinv unfolding category_inv_def by blast+
  have n31: "st_length st < 2 ^ 31" using wf by (simp add: wf_stackTable_def)
  define b' where "b' = callNodeStep st ft ?fc dc k b"
  show ?thesis
  proof (cases "b_map b (stackKey st ft ?fc b k)")
    case None
    from n31 I(8) k have u: "toUint32 ?L = ?L" by (intro toUint32_id) simp
    have F: "b_category b' = b_category b @ [st_category st ! k]"
      "b_subcategory b' = b_subcategory b @ [st_subcategory st ! k]"
      "b_length b' = Suc ?L"
      "b_stackIndexToCallNodeIndex b' = ?m[k := ?L]"
      unfolding b'_def callNodeStep_new [OF None] u by simp_all
    have "\<And>s. s < k \<Longrightarrow> ?m ! s \<noteq> ?L" using I(9) by fastforce
    then have empty: "stackPairs st ?m k ?L = {}"
      by (simp add: stackPairs_def)
    show ?thesis
      unfolding b'_def [symmetric] category_inv_def F stackPairs_Suc [OF km]
    proof (intro allI impI)
      fix n assume "n < Suc ?L"
      show "(if n = ?L then insert ?x (stackPairs st ?m k n) else stackPairs st ?m k n) \<noteq> {} \<and>
        catSpec dc (if n = ?L then insert ?x (stackPairs st ?m k n) else stackPairs st ?m k n)
          ((b_category b @ [st_category st ! k]) ! n,
           (b_subcategory b @ [st_subcategory st ! k]) ! n)"
      proof (cases "n = ?L")
        case True
        then show ?thesis using I(3) I(4) empty by (simp add: nth_append catSpec_single)
      next
        case False
        with \<open>n < Suc ?L\<close> have "n < ?L" by simp
        with False C [of n] I(3) I(4) show ?thesis by (simp add: nth_append)
      qed
    qed
  next
    case (Some j)
    have j: "j < ?L" using I(14) [OF Some] .
    from n31 I(8) k j have u: "toUint32 j = j" by (intro toUint32_id) simp
    have F: "b_category b' =
          (if b_category b ! j \<noteq> st_category st ! k then (b_category b)[j := dc]
           else b_category b)"
      "b_subcategory b' =
          (if b_category b ! j \<noteq> st_category st ! k \<or> b_subcategory b ! j \<noteq> st_subcategory st ! k
           then (b_subcategory b)[j := 0] else b_subcategory b)"
      "b_length b' = ?L"
      "b_stackIndexToCallNodeIndex b' = ?m[k := j]"
      unfolding b'_def callNodeStep_found [OF Some] u by simp_all
    have at_j: "(b_category b' ! j, b_subcategory b' ! j) =
        mergeCategory dc ?x (b_category b ! j, b_subcategory b ! j)"
      using j I(3) I(4) by (simp add: F mergeCategory_def)
    have other: "\<And>n. n \<noteq> j \<Longrightarrow> b_category b' ! n = b_category b ! n \<and>
        b_subcategory b' ! n = b_subcategory b ! n"
      by (simp add: F)
    show ?thesis
      unfolding b'_def [symmetric] category_inv_def F(3,4) stackPairs_Suc [OF km]
    proof (intro allI impI)
      fix n assume n: "n < ?L"
      show "(if n = j then insert ?x (stackPairs st ?m k n) else stackPairs st ?m k n) \<noteq> {} \<and>
        catSpec dc (if n = j then insert ?x (stackPairs st ?m k n) else stackPairs st ?m k n)
          (b_category b' ! n, b_subcategory b' ! n)"
      proof (cases "n = j")
        case True
        from catSpec_merge [OF C(1) [OF j] C(2) [OF j], of ?x] True show ?thesis
          by (simp add: at_j)
      next
        case False
        with C [OF n] other [OF False] show ?thesis by simp
      qed
    qed
  qed
qed

lemma category_inv_run:
  assumes wf: "wf_stackTable st ft fn dc" and k: "k \<le> st_length st"
  shows "category_inv st dc k (runBuilder st ft (fn_length fn) dc k)"
  using k
proof (induction k)
  case 0
  then show ?case by (simp add: runBuilder_def category_inv_def initialBuilderState_def)
next
  case (Suc k)
  then have "k < st_length st" "k \<le> st_length st" by simp_all
  from category_inv_step [OF wf this(1) builder_inv_run [OF wf this(2)] Suc.IH [OF this(2)]]
  show ?case unfolding runBuilder_Suc .
qed


text \<open>
  The parent call node of a stack under a mapping from stacks to call nodes (\<^verbatim>\<open>-1\<close> for a
  root stack), and the invariant that every stack seen is mapped to a call node with that
  parent and with the function of the stack.
\<close>

definition prefixCallNodeOf :: "StackTable \<Rightarrow> nat list \<Rightarrow> nat \<Rightarrow> int" where
  "prefixCallNodeOf stackTable m s =
     (case st_prefix stackTable ! s of None \<Rightarrow> -1 | Some p \<Rightarrow> int (m ! p))"

lemma stackPrefixCallNode_eq:
  "stackPrefixCallNode st b s = prefixCallNodeOf st (b_stackIndexToCallNodeIndex b) s"
  by (simp add: stackPrefixCallNode_def prefixCallNodeOf_def)

lemma prefixCallNodeOf_update:
  assumes wf: "wf_stackTable st ft fn dc" and "s \<le> k" "k < st_length st"
  shows "prefixCallNodeOf st (m[k := j]) s = prefixCallNodeOf st m s"
proof (cases "st_prefix st ! s")
  case None
  then show ?thesis by (simp add: prefixCallNodeOf_def)
next
  case (Some p)
  from assms(2,3) have "s < st_length st" by simp
  with wf have "case st_prefix st ! s of None \<Rightarrow> True | Some p \<Rightarrow> p < s"
    unfolding wf_stackTable_def by blast
  with Some have "p < s" by simp
  with assms(2) Some show ?thesis by (simp add: prefixCallNodeOf_def)
qed

lemma key_inj:
  assumes "a * int fc + int x = b * int fc + int y" and "x < fc" and "y < fc"
  shows "a = b \<and> x = y"
proof -
  have "(a * int fc + int x) mod int fc = int x" "(b * int fc + int y) mod int fc = int y"
    using assms(2,3) by simp_all
  with assms(1) have xy: "x = y" by simp
  with assms(1) have "a * int fc = b * int fc" by simp
  with assms(2) have "a = b" by simp
  with xy show ?thesis by simp
qed

definition stack_inv :: "StackTable \<Rightarrow> FrameTable \<Rightarrow> nat \<Rightarrow> BuilderState \<Rightarrow> bool" where
  "stack_inv st ft k b \<longleftrightarrow>
     (\<forall>s < k. b_prefix b ! (b_stackIndexToCallNodeIndex b ! s) =
                 prefixCallNodeOf st (b_stackIndexToCallNodeIndex b) s \<and>
              b_func b ! (b_stackIndexToCallNodeIndex b ! s) = stackFunc st ft s)"

lemma stack_inv_step:
  assumes wf: "wf_stackTable st ft fn dc" and k: "k < st_length st"
    and inv: "builder_inv (st_length st) (fn_length fn) k b"
    and sinv: "stack_inv st ft k b"
  shows "stack_inv st ft (Suc k) (callNodeStep st ft (fn_length fn) dc k b)"
proof -
  let ?L = "b_length b"
  let ?fc = "fn_length fn"
  let ?m = "b_stackIndexToCallNodeIndex b"
  note I = builder_invD [OF inv]
  have km: "k < length ?m" using I(7) k by simp
  have S: "\<And>s. s < k \<Longrightarrow> b_prefix b ! (?m ! s) = prefixCallNodeOf st ?m s"
    "\<And>s. s < k \<Longrightarrow> b_func b ! (?m ! s) = stackFunc st ft s"
    using sinv unfolding stack_inv_def by blast+
  have n31: "st_length st < 2 ^ 31" using wf by (simp add: wf_stackTable_def)
  have f: "stackFunc st ft k < ?fc" by (rule wf_stackFunc [OF wf k])
  define b' where "b' = callNodeStep st ft ?fc dc k b"
  show ?thesis
  proof (cases "b_map b (stackKey st ft ?fc b k)")
    case None
    from n31 I(8) k have u: "toUint32 ?L = ?L" by (intro toUint32_id) simp
    have F: "b_prefix b' = b_prefix b @ [prefixCallNodeOf st ?m k]"
      "b_func b' = b_func b @ [stackFunc st ft k]"
      "b_stackIndexToCallNodeIndex b' = ?m[k := ?L]"
      unfolding b'_def callNodeStep_new [OF None] u stackPrefixCallNode_eq by simp_all
    show ?thesis
      unfolding b'_def [symmetric] stack_inv_def F
    proof (intro allI impI)
      fix s assume s: "s < Suc k"
      then have sk: "s \<le> k" by simp
      show "(b_prefix b @ [prefixCallNodeOf st ?m k]) ! (?m[k := ?L] ! s) =
              prefixCallNodeOf st (?m[k := ?L]) s \<and>
            (b_func b @ [stackFunc st ft k]) ! (?m[k := ?L] ! s) = stackFunc st ft s"
      proof (cases "s = k")
        case True
        then show ?thesis
          using km I(1) I(2) prefixCallNodeOf_update [OF wf sk k, of ?m ?L]
          by (simp add: nth_append)
      next
        case False
        with s have sl: "s < k" by simp
        with I(9) [OF sl] S [OF sl] km I(1) I(2)
          prefixCallNodeOf_update [OF wf sk k, of ?m ?L]
        show ?thesis by (simp add: nth_append)
      qed
    qed
  next
    case (Some j)
    have j: "j < ?L" using I(14) [OF Some] .
    from n31 I(8) k j have u: "toUint32 j = j" by (intro toUint32_id) simp
    have F: "b_prefix b' = b_prefix b" "b_func b' = b_func b"
      "b_stackIndexToCallNodeIndex b' = ?m[k := j]"
      unfolding b'_def callNodeStep_found [OF Some] u by simp_all
    from I(15) [OF Some]
    have "prefixCallNodeOf st ?m k * int ?fc + int (stackFunc st ft k) =
        b_prefix b ! j * int ?fc + int (b_func b ! j)"
      by (simp add: stackKey_def stackPrefixCallNode_eq)
    from key_inj [OF this f I(13) [OF j]]
    have at_j: "b_prefix b ! j = prefixCallNodeOf st ?m k" "b_func b ! j = stackFunc st ft k"
      by simp_all
    show ?thesis
      unfolding b'_def [symmetric] stack_inv_def F
    proof (intro allI impI)
      fix s assume s: "s < Suc k"
      then have sk: "s \<le> k" by simp
      show "b_prefix b ! (?m[k := j] ! s) = prefixCallNodeOf st (?m[k := j]) s \<and>
            b_func b ! (?m[k := j] ! s) = stackFunc st ft s"
      proof (cases "s = k")
        case True
        then show ?thesis
          using km at_j prefixCallNodeOf_update [OF wf sk k, of ?m j] by simp
      next
        case False
        with s have sl: "s < k" by simp
        with S [OF sl] km prefixCallNodeOf_update [OF wf sk k, of ?m j]
        show ?thesis by simp
      qed
    qed
  qed
qed

lemma stack_inv_run:
  assumes wf: "wf_stackTable st ft fn dc" and k: "k \<le> st_length st"
  shows "stack_inv st ft k (runBuilder st ft (fn_length fn) dc k)"
  using k
proof (induction k)
  case 0
  then show ?case by (simp add: stack_inv_def)
next
  case (Suc k)
  then have "k < st_length st" "k \<le> st_length st" by simp_all
  from stack_inv_step [OF wf this(1) builder_inv_run [OF wf this(2)] Suc.IH [OF this(2)]]
  show ?case unfolding runBuilder_Suc .
qed


lemma getCallNodeInfo_categories:
  assumes wf: "wf_stackTable st ft fn dc"
  defines "b \<equiv> runBuilder st ft (fn_length fn) dc (st_length st)"
  defines "T \<equiv> callNodeTable (getCallNodeInfo st ft fn dc)"
  assumes n: "n < b_length b"
  shows "cn_category T ! n = toInt32 (int (b_category b ! n))"
    "cn_subcategory T ! n = toInt32 (int (b_subcategory b ! n))"
proof -
  have inv: "builder_inv (st_length st) (fn_length fn) (st_length st) b"
    unfolding b_def by (rule builder_inv_run [OF wf]) simp
  note I = builder_invD [OF inv]
  from n I(3) I(4) show "cn_category T ! n = toInt32 (int (b_category b ! n))"
    "cn_subcategory T ! n = toInt32 (int (b_subcategory b ! n))"
    by (simp_all add: T_def b_def getCallNodeInfo_def Let_def)
qed

lemma toInt32_0: "toInt32 0 = 0"
  by (simp add: toInt32_def)

text \<open>
  C3 (as amended). Let two stacks \<open>s\<close> and \<open>t\<close> of a well-formed stack table have the same
  parent call node and the same function. Then \<^verbatim>\<open>getCallNodeInfo\<close> maps them to the same call
  node \<open>n\<close>, and in the table it returns: if their categories differ, the category of \<open>n\<close>
  is \<^verbatim>\<open>defaultCategory\<close> and its subcategory is 0; if their categories agree and their
  subcategories differ, the subcategory of \<open>n\<close> is 0, and its category is the one recorded
  (that of \<open>s\<close>) when every stack of \<open>n\<close> has that category; if every stack of \<open>n\<close> has
  the category and the subcategory of \<open>s\<close>, both are kept as recorded. What decides is the
  set of all stacks of the node, since each stack is compared with the pair the node holds
  when the stack is reached, not with another stack.
\<close>

theorem collapsed_stacks_category:
  assumes wf: "wf_stackTable stackTable frameTable funcTable defaultCategory"
    and T: "T = callNodeTable (getCallNodeInfo stackTable frameTable funcTable defaultCategory)"
    and m: "m = stackIndexToCallNodeIndex
                  (getCallNodeInfo stackTable frameTable funcTable defaultCategory)"
    and s: "s < st_length stackTable" and t: "t < st_length stackTable"
    and samePrefix: "prefixCallNodeOf stackTable m s = prefixCallNodeOf stackTable m t"
    and sameFunc: "stackFunc stackTable frameTable s = stackFunc stackTable frameTable t"
    and n: "n = m ! s"
  shows "m ! t = n \<and> n < cn_length T \<and>
     (st_category stackTable ! s \<noteq> st_category stackTable ! t \<longrightarrow>
        cn_category T ! n = int defaultCategory \<and> cn_subcategory T ! n = 0) \<and>
     (st_category stackTable ! s = st_category stackTable ! t \<and>
      st_subcategory stackTable ! s \<noteq> st_subcategory stackTable ! t \<longrightarrow>
        cn_subcategory T ! n = 0 \<and>
        ((\<forall>u < st_length stackTable. m ! u = n \<longrightarrow>
            st_category stackTable ! u = st_category stackTable ! s) \<longrightarrow>
         cn_category T ! n = int (st_category stackTable ! s))) \<and>
     ((\<forall>u < st_length stackTable. m ! u = n \<longrightarrow>
          st_category stackTable ! u = st_category stackTable ! s \<and>
          st_subcategory stackTable ! u = st_subcategory stackTable ! s) \<longrightarrow>
        cn_category T ! n = int (st_category stackTable ! s) \<and>
        cn_subcategory T ! n = int (st_subcategory stackTable ! s))"
proof -
  let ?st = stackTable and ?fc = "fn_length funcTable" and ?dc = defaultCategory
  let ?N = "st_length stackTable"
  define b where "b = runBuilder ?st frameTable ?fc ?dc ?N"
  have inv: "builder_inv ?N ?fc ?N b"
    unfolding b_def by (rule builder_inv_run [OF wf]) simp
  note I = builder_invD [OF inv]
  have sinv: "stack_inv ?st frameTable ?N b"
    unfolding b_def by (rule stack_inv_run [OF wf]) simp
  have cinv: "category_inv ?st ?dc ?N b"
    unfolding b_def by (rule category_inv_run [OF wf]) simp
  note F = getCallNodeInfo_fields [OF wf, folded b_def T]
  have mb: "m = b_stackIndexToCallNodeIndex b" unfolding m b_def by (rule F(5) [unfolded b_def])
  have ns: "m ! s < b_length b" and nt: "m ! t < b_length b"
    using I(9) s t unfolding mb by simp_all
  have nL: "n < b_length b" using ns n by simp
  \<comment> \<open>both stacks are mapped to the node registered under their common key\<close>
  from sinv s t have
    ps: "b_prefix b ! (m ! s) = prefixCallNodeOf ?st m s"
      "b_func b ! (m ! s) = stackFunc ?st frameTable s" and
    pt: "b_prefix b ! (m ! t) = prefixCallNodeOf ?st m t"
      "b_func b ! (m ! t) = stackFunc ?st frameTable t"
    unfolding stack_inv_def mb by blast+
  from I(16) [OF ns] I(16) [OF nt] have "Some (m ! s) = Some (m ! t)"
    unfolding ps pt samePrefix sameFunc by simp
  then have mt: "m ! t = n" using n by simp
  \<comment> \<open>the recorded category follows the set of stacks of the node\<close>
  let ?pair = "\<lambda>u. (st_category ?st ! u, st_subcategory ?st ! u)"
  let ?P = "stackPairs ?st m ?N n"
  have spec: "catSpec ?dc ?P (b_category b ! n, b_subcategory b ! n)"
    using cinv nL unfolding category_inv_def mb by blast
  have inP: "?pair s \<in> ?P" "?pair t \<in> ?P"
    using s t n mt by (auto simp: stackPairs_def)
  note s_1 = spec [unfolded catSpec_def fst_conv snd_conv, THEN conjunct1]
    and s_2 = spec [unfolded catSpec_def fst_conv snd_conv, THEN conjunct2, THEN conjunct1]
    and s_3 = spec [unfolded catSpec_def fst_conv snd_conv, THEN conjunct2, THEN conjunct2,
                    THEN conjunct1]
    and s_4 = spec [unfolded catSpec_def fst_conv snd_conv, THEN conjunct2, THEN conjunct2,
                    THEN conjunct2]
  have r31: "?dc < 2 ^ 31" "st_category ?st ! s < 2 ^ 31" "st_subcategory ?st ! s < 2 ^ 31"
    using wf s unfolding wf_stackTable_def by blast+
  note G = getCallNodeInfo_categories [OF wf, folded b_def T, OF nL]
  have c1: "cn_category T ! n = int ?dc \<and> cn_subcategory T ! n = 0"
    if d: "st_category ?st ! s \<noteq> st_category ?st ! t"
  proof -
    from inP d have "\<exists>p\<in>?P. \<exists>q\<in>?P. fst p \<noteq> fst q" by force
    with s_2 have "b_category b ! n = ?dc" "b_subcategory b ! n = 0" by simp_all
    with r31 show ?thesis by (simp add: G toInt32_int toInt32_0)
  qed
  have c2: "cn_subcategory T ! n = 0"
    if d: "st_subcategory ?st ! s \<noteq> st_subcategory ?st ! t"
  proof -
    from inP d have "\<exists>p\<in>?P. \<exists>q\<in>?P. snd p \<noteq> snd q" by force
    with s_4 have "b_subcategory b ! n = 0" by simp
    then show ?thesis by (simp add: G toInt32_int toInt32_0)
  qed
  have c3: "cn_category T ! n = int (st_category ?st ! s)"
    if a: "\<forall>u < ?N. m ! u = n \<longrightarrow> st_category ?st ! u = st_category ?st ! s"
  proof -
    from a have "\<forall>p\<in>?P. fst p = st_category ?st ! s" by (auto simp: stackPairs_def)
    with s_1 have "b_category b ! n = st_category ?st ! s" by blast
    with r31 show ?thesis by (simp add: G toInt32_int toInt32_0)
  qed
  have c4: "cn_subcategory T ! n = int (st_subcategory ?st ! s)"
    if a: "\<forall>u < ?N. m ! u = n \<longrightarrow> st_category ?st ! u = st_category ?st ! s \<and>
             st_subcategory ?st ! u = st_subcategory ?st ! s"
  proof -
    from a have "\<forall>p\<in>?P. snd p = st_subcategory ?st ! s" "\<forall>p\<in>?P. fst p = st_category ?st ! s"
      by (auto simp: stackPairs_def)
    then have "(\<forall>p\<in>?P. snd p = st_subcategory ?st ! s) \<and> (\<forall>p\<in>?P. \<forall>q\<in>?P. fst p = fst q)"
      by simp
    with s_3 have "b_subcategory b ! n = st_subcategory ?st ! s" by blast
    with r31 show ?thesis by (simp add: G toInt32_int toInt32_0)
  qed
  from nL have "n < cn_length T" by (simp add: F)
  with mt c1 c2 c3 c4 show ?thesis by blast
qed

theorem collapsed_stacks_category_witness:
  "wf_stackTable exStackTable exFrameTable exFuncTable 7 \<and>
   stackIndexToCallNodeIndex (getCallNodeInfo exStackTable exFrameTable exFuncTable 7) ! 1 = 1 \<and>
   stackIndexToCallNodeIndex (getCallNodeInfo exStackTable exFrameTable exFuncTable 7) ! 2 = 1 \<and>
   st_category exStackTable ! 1 \<noteq> st_category exStackTable ! 2 \<and>
   cn_category (callNodeTable (getCallNodeInfo exStackTable exFrameTable exFuncTable 7)) ! 1 = 7 \<and>
   cn_subcategory (callNodeTable (getCallNodeInfo exStackTable exFrameTable exFuncTable 7)) ! 1 = 0"
proof -
  let ?I = "getCallNodeInfo exStackTable exFrameTable exFuncTable 7"
  let ?m = "stackIndexToCallNodeIndex ?I"
  have s: "1 < st_length exStackTable" and t: "2 < st_length exStackTable"
    and d: "st_category exStackTable ! 1 \<noteq> st_category exStackTable ! 2"
    by (simp_all add: exStackTable_def)
  have p: "prefixCallNodeOf exStackTable ?m 1 = prefixCallNodeOf exStackTable ?m 2"
    by (simp add: prefixCallNodeOf_def exStackTable_def)
  have f: "stackFunc exStackTable exFrameTable 1 = stackFunc exStackTable exFrameTable 2"
    by (simp add: stackFunc_def exStackTable_def exFrameTable_def)
  have n: "1 = ?m ! 1" by (simp add: exStackTable_callNodeInfo)
  from collapsed_stacks_category [OF exStackTable_wf refl refl s t p f n] d
  have "?m ! 2 = 1" "cn_category (callNodeTable ?I) ! 1 = 7"
    "cn_subcategory (callNodeTable ?I) ! 1 = 0"
    by simp_all
  with exStackTable_wf n d show ?thesis by simp
qed

subsection \<open>A third stack of the node\<close>

text \<open>
  Three root stacks in function 0, with the pairs (category, subcategory) (1, 4), (2, 4) and
  (1, 5); the default category is 9. They are one call node.
\<close>

definition thirdStackTable :: StackTable where
  "thirdStackTable =
     \<lparr> st_frame = [0, 1, 2], st_category = [1, 2, 1], st_subcategory = [4, 4, 5],
       st_prefix = [None, None, None], st_length = 3 \<rparr>"

definition thirdFrameTable :: FrameTable where
  "thirdFrameTable =
     \<lparr> ft_func = [0, 0, 0], ft_innerWindowID = [None, None, None],
       ft_implementation = [None, None, None], ft_length = 3 \<rparr>"

definition thirdFuncTable :: FuncTable where
  "thirdFuncTable = \<lparr> fn_isJS = [False], fn_length = 1 \<rparr>"

text \<open>
  C3 as stated fails. Stacks 0 and 2 of \<open>thirdStackTable\<close> collapse into call node 0, their
  categories are both 1 and their subcategories differ, so the category of the node should
  be unchanged, 1. It is the default category 9: stack 1, of category 2, has downgraded the
  node before stack 2 is compared with it.
\<close>

theorem collapsed_stacks_third_stack:
  "wf_stackTable thirdStackTable thirdFrameTable thirdFuncTable 9 \<and>
   stackIndexToCallNodeIndex (getCallNodeInfo thirdStackTable thirdFrameTable thirdFuncTable 9) =
     [0, 0, 0] \<and>
   st_category thirdStackTable ! 0 = st_category thirdStackTable ! 2 \<and>
   st_subcategory thirdStackTable ! 0 \<noteq> st_subcategory thirdStackTable ! 2 \<and>
   cn_category (callNodeTable (getCallNodeInfo thirdStackTable thirdFrameTable thirdFuncTable 9))
     ! 0 = 9 \<and>
   cn_category (callNodeTable (getCallNodeInfo thirdStackTable thirdFrameTable thirdFuncTable 9))
     ! 0 \<noteq> int (st_category thirdStackTable ! 0)"
proof -
  have wf: "wf_stackTable thirdStackTable thirdFrameTable thirdFuncTable 9"
    by (simp add: wf_stackTable_def thirdStackTable_def thirdFrameTable_def thirdFuncTable_def
        all_less_upt upt_3)
  have info: "getCallNodeInfo thirdStackTable thirdFrameTable thirdFuncTable 9 =
     \<lparr> callNodeTable =
         \<lparr> cn_prefix = [-1], cn_func = [0], cn_category = [9], cn_subcategory = [0],
           cn_innerWindowID = [0], cn_depth = [0], cn_length = 1 \<rparr>,
       stackIndexToCallNodeIndex = [0, 0, 0] \<rparr>"
    by (simp add: getCallNodeInfo_def runBuilder_def thirdStackTable_def thirdFrameTable_def
        thirdFuncTable_def initialBuilderState_def callNodeStep_def addCallNode_def Let_def upt_3
        replicate_3 toUint32_def toInt32_id)
  have "st_category thirdStackTable ! 0 = st_category thirdStackTable ! 2"
    "st_subcategory thirdStackTable ! 0 \<noteq> st_subcategory thirdStackTable ! 2"
    "int (st_category thirdStackTable ! 0) = 1"
    by (simp_all add: thirdStackTable_def)
  with wf show ?thesis by (simp add: info)
qed

section \<open>Call-node paths and indices\<close>

text \<open>
  \<^verbatim>\<open>getCallNodePathFromIndex\<close>: the loop \<^verbatim>\<open>while (fs !== -1)\<close> pushes \<^verbatim>\<open>func[fs]\<close> and moves to
  \<^verbatim>\<open>prefix[fs]\<close>; it need not end on a table whose prefixes form a cycle, so it is a partial
  function and \<open>None\<close> stands for a run that does not return.
\<close>

partial_function (option) callNodePathLoop :: "CallNodeTable \<Rightarrow> int \<Rightarrow> int list \<Rightarrow> int list option" where
  "callNodePathLoop T fs callNodePath =
     (if fs = -1 then Some callNodePath
      else callNodePathLoop T (cn_prefix T ! nat fs) (callNodePath @ [cn_func T ! nat fs]))"

definition getCallNodePathFromIndex :: "int option \<Rightarrow> CallNodeTable \<Rightarrow> int list option" where
  "getCallNodePathFromIndex callNodeIndex T =
     (case callNodeIndex of
        None \<Rightarrow> Some []
      | Some i \<Rightarrow> if i = -1 then Some [] else map_option rev (callNodePathLoop T i []))"

text \<open>
  \<^verbatim>\<open>_getCallNodeIndexFromParentAndFunc\<close>: the scan from \<^verbatim>\<open>parent + 1\<close> to the end of the
  table. The function looked for is \<^verbatim>\<open>callNodePath[i]\<close>, which is \<^verbatim>\<open>undefined\<close> (\<open>None\<close>) when
  \<open>i\<close> is outside the path; no entry of the \<^verbatim>\<open>func\<close> column equals it then.
\<close>

function getCallNodeIndexFromParentAndFuncLoop ::
  "CallNodeTable \<Rightarrow> int \<Rightarrow> int option \<Rightarrow> nat \<Rightarrow> nat option" where
  "getCallNodeIndexFromParentAndFuncLoop T parent func callNodeIndex =
     (if callNodeIndex < cn_length T
      then (if cn_prefix T ! callNodeIndex = parent \<and> Some (cn_func T ! callNodeIndex) = func
            then Some callNodeIndex
            else getCallNodeIndexFromParentAndFuncLoop T parent func (callNodeIndex + 1))
      else None)"
  by pat_completeness auto
termination
  by (relation "measure (\<lambda>(T, parent, func, callNodeIndex). cn_length T - callNodeIndex)") auto

declare getCallNodeIndexFromParentAndFuncLoop.simps [simp del]

definition getCallNodeIndexFromParentAndFunc ::
  "int \<Rightarrow> int option \<Rightarrow> CallNodeTable \<Rightarrow> nat option" where
  "getCallNodeIndexFromParentAndFunc parent func T =
     getCallNodeIndexFromParentAndFuncLoop T parent func (nat (parent + 1))"

definition pathAt :: "int list \<Rightarrow> int \<Rightarrow> int option" where
  "pathAt callNodePath i =
     (if 0 \<le> i \<and> i < int (length callNodePath) then Some (callNodePath ! nat i) else None)"

text \<open>
  \<^verbatim>\<open>_getCallNodeIndexFromPathWithCache\<close>. \<^verbatim>\<open>hashPath\<close> is imported from \<^verbatim>\<open>../utils/path\<close>,
  which is not among the sources; it is a parameter here, and the statements below hold
  for every hash function. The cache is a map from hashes to call-node indices; a key is
  an \<open>option\<close> because \<^verbatim>\<open>sliceHashes.pop()\<close> on an empty array gives \<^verbatim>\<open>undefined\<close>. The
  array \<^verbatim>\<open>sliceHashes\<close> is a list with its last element first. The function returns its
  result together with the cache it has written to.

  Step 1, \<^verbatim>\<open>while (--i > 0)\<close>: the result is the final \<open>i\<close>, the index found in the cache if
  any, and \<^verbatim>\<open>sliceHashes\<close>.
\<close>

function findCachedParent ::
  "(int list \<Rightarrow> 'h) \<Rightarrow> int list \<Rightarrow> ('h option \<rightharpoonup> nat) \<Rightarrow> int \<Rightarrow> 'h option list
     \<Rightarrow> int \<times> nat option \<times> 'h option list" where
  "findCachedParent hashPath callNodePath cache i sliceHashes =
     (let i' = i - 1
      in if i' > 0
         then (let hash = Some (hashPath (take (nat i') callNodePath))
               in case cache hash of
                    Some index \<Rightarrow> (i', Some index, sliceHashes)
                  | None \<Rightarrow> findCachedParent hashPath callNodePath cache i' (hash # sliceHashes))
         else (i', None, sliceHashes))"
  by pat_completeness auto
termination
  by (relation "measure (\<lambda>(hashPath, callNodePath, cache, i, sliceHashes). nat i)") auto

declare findCachedParent.simps [simp del]

text \<open>Step 2, \<^verbatim>\<open>while (i < callNodePath.length)\<close>, and the final \<^verbatim>\<open>index < 0 ? null : index\<close>.\<close>

function resolveFromParent ::
  "int list \<Rightarrow> CallNodeTable \<Rightarrow> int \<Rightarrow> int \<Rightarrow> 'h option list \<Rightarrow> ('h option \<rightharpoonup> nat)
     \<Rightarrow> nat option \<times> ('h option \<rightharpoonup> nat)" where
  "resolveFromParent callNodePath T i index sliceHashes cache =
     (if i < int (length callNodePath)
      then (case getCallNodeIndexFromParentAndFunc index (pathAt callNodePath i) T of
              None \<Rightarrow> (None, cache)
            | Some nextNodeIndex \<Rightarrow>
                (let hash = (case sliceHashes of [] \<Rightarrow> None | h # _ \<Rightarrow> h)
                 in resolveFromParent callNodePath T (i + 1) (int nextNodeIndex)
                      (tl sliceHashes) (cache(hash \<mapsto> nextNodeIndex))))
      else (if index < 0 then None else Some (nat index), cache))"
  by pat_completeness auto
termination
  by (relation "measure (\<lambda>(callNodePath, T, i, index, sliceHashes, cache).
        nat (int (length callNodePath) - i))") auto

declare resolveFromParent.simps [simp del]

definition getCallNodeIndexFromPathWithCache ::
  "(int list \<Rightarrow> 'h) \<Rightarrow> int list \<Rightarrow> CallNodeTable \<Rightarrow> ('h option \<rightharpoonup> nat)
     \<Rightarrow> nat option \<times> ('h option \<rightharpoonup> nat)" where
  "getCallNodeIndexFromPathWithCache hashPath callNodePath T cache =
     (let hashFullPath = Some (hashPath callNodePath)
      in case cache hashFullPath of
           Some result \<Rightarrow> (Some result, cache)
         | None \<Rightarrow>
             (let (i, found, sliceHashes) =
                    findCachedParent hashPath callNodePath cache (int (length callNodePath))
                      [hashFullPath];
                  index = (case found of None \<Rightarrow> -1 | Some ix \<Rightarrow> int ix)
              in resolveFromParent callNodePath T i index sliceHashes cache))"

text \<open>
  \<^verbatim>\<open>getCallNodeIndicesFromPaths\<close> maps the paths with one cache, new and empty;
  \<^verbatim>\<open>getCallNodeIndexFromPath\<close> takes the first result for a single path.
\<close>

fun getCallNodeIndicesFromPathsLoop ::
  "(int list \<Rightarrow> 'h) \<Rightarrow> CallNodeTable \<Rightarrow> int list list \<Rightarrow> ('h option \<rightharpoonup> nat)
     \<Rightarrow> nat option list" where
  "getCallNodeIndicesFromPathsLoop hashPath T [] cache = []"
| "getCallNodeIndicesFromPathsLoop hashPath T (path # paths) cache =
     (let (r, cache') = getCallNodeIndexFromPathWithCache hashPath path T cache
      in r # getCallNodeIndicesFromPathsLoop hashPath T paths cache')"

definition getCallNodeIndicesFromPaths ::
  "(int list \<Rightarrow> 'h) \<Rightarrow> int list list \<Rightarrow> CallNodeTable \<Rightarrow> nat option list" where
  "getCallNodeIndicesFromPaths hashPath callNodePaths T =
     getCallNodeIndicesFromPathsLoop hashPath T callNodePaths Map.empty"

definition getCallNodeIndexFromPath ::
  "(int list \<Rightarrow> 'h) \<Rightarrow> int list \<Rightarrow> CallNodeTable \<Rightarrow> nat option" where
  "getCallNodeIndexFromPath hashPath callNodePath T =
     hd (getCallNodeIndicesFromPaths hashPath [callNodePath] T)"


subsection \<open>The round trip\<close>

text \<open>
  For the proofs: the functions on the way from the root to call node \<open>n\<close>, and the
  resolution of a list of functions from a parent by repeated scans, without a cache.
\<close>

function pathTo :: "CallNodeTable \<Rightarrow> nat \<Rightarrow> int list" where
  "pathTo T n =
     (if 0 \<le> cn_prefix T ! n \<and> nat (cn_prefix T ! n) < n
      then pathTo T (nat (cn_prefix T ! n)) @ [cn_func T ! n]
      else [cn_func T ! n])"
  by pat_completeness auto
termination
  by (relation "measure (\<lambda>(T, n). n)") auto

declare pathTo.simps [simp del]

fun resolveSpec :: "CallNodeTable \<Rightarrow> int \<Rightarrow> int list \<Rightarrow> int option" where
  "resolveSpec T index [] = Some index"
| "resolveSpec T index (f # fs) =
     (case getCallNodeIndexFromParentAndFunc index (Some f) T of
        None \<Rightarrow> None
      | Some nextNodeIndex \<Rightarrow> resolveSpec T (int nextNodeIndex) fs)"

lemma wf_callNodeTableD:
  assumes "wf_callNodeTable T"
  shows "length (cn_prefix T) = cn_length T" "length (cn_func T) = cn_length T"
    "length (cn_depth T) = cn_length T"
    "\<And>i. i < cn_length T \<Longrightarrow> -1 \<le> cn_prefix T ! i"
    "\<And>i. i < cn_length T \<Longrightarrow> cn_prefix T ! i < int i"
    "\<And>i. i < cn_length T \<Longrightarrow> cn_depth T ! i =
        (if cn_prefix T ! i = -1 then 0 else cn_depth T ! nat (cn_prefix T ! i) + 1)"
  using assms unfolding wf_callNodeTable_def by blast+

lemma pathTo_root:
  assumes "cn_prefix T ! n = -1"
  shows "pathTo T n = [cn_func T ! n]"
  using assms by (simp add: pathTo.simps [of T n])

lemma pathTo_child:
  assumes "wf_callNodeTable T" "n < cn_length T" "cn_prefix T ! n \<noteq> -1"
  shows "pathTo T n = pathTo T (nat (cn_prefix T ! n)) @ [cn_func T ! n]"
    and "nat (cn_prefix T ! n) < n" and "0 \<le> cn_prefix T ! n"
proof -
  from wf_callNodeTableD(4,5) [OF assms(1,2)] assms(3)
  have p: "0 \<le> cn_prefix T ! n" "nat (cn_prefix T ! n) < n" by linarith+
  then show "pathTo T n = pathTo T (nat (cn_prefix T ! n)) @ [cn_func T ! n]"
    by (simp add: pathTo.simps [of T n])
  from p show "nat (cn_prefix T ! n) < n" "0 \<le> cn_prefix T ! n"
    by simp_all
qed

lemma callNodePathLoop_pathTo:
  assumes wf: "wf_callNodeTable T"
  shows "n < cn_length T \<Longrightarrow> callNodePathLoop T (int n) acc = Some (acc @ rev (pathTo T n))"
proof (induction n arbitrary: acc rule: less_induct)
  case (less n)
  show ?case
  proof (cases "cn_prefix T ! n = -1")
    case True
    have "callNodePathLoop T (int n) acc = callNodePathLoop T (-1) (acc @ [cn_func T ! n])"
      using True by (subst callNodePathLoop.simps) simp
    also have "\<dots> = Some (acc @ [cn_func T ! n])"
      by (subst callNodePathLoop.simps) simp
    finally show ?thesis by (simp add: pathTo_root [OF True])
  next
    case False
    note c = pathTo_child [OF wf less.prems False]
    let ?p = "nat (cn_prefix T ! n)"
    have "callNodePathLoop T (int n) acc = callNodePathLoop T (int ?p) (acc @ [cn_func T ! n])"
      by (subst callNodePathLoop.simps) (simp add: c(3))
    also from c(2) less.prems have "?p < cn_length T" by simp
    from less.IH [OF c(2) this]
    have "callNodePathLoop T (int ?p) (acc @ [cn_func T ! n]) =
        Some ((acc @ [cn_func T ! n]) @ rev (pathTo T ?p))" .
    finally show ?thesis by (simp add: c(1))
  qed
qed

lemma scan_finds:
  assumes "n < cn_length T" "cn_prefix T ! n = parent" "cn_func T ! n = f"
    and uniq: "\<And>k. k < cn_length T \<Longrightarrow> cn_prefix T ! k = parent \<Longrightarrow> cn_func T ! k = f \<Longrightarrow> k = n"
  shows "start \<le> n \<Longrightarrow> getCallNodeIndexFromParentAndFuncLoop T parent (Some f) start = Some n"
proof (induction "n - start" arbitrary: start)
  case 0
  then have "start = n" by simp
  with assms(1-3) show ?case by (subst getCallNodeIndexFromParentAndFuncLoop.simps) simp
next
  case (Suc d)
  then have lt: "start < n" by simp
  with assms(1) have sl: "start < cn_length T" by simp
  have "\<not> (cn_prefix T ! start = parent \<and> Some (cn_func T ! start) = Some f)"
  proof
    assume "cn_prefix T ! start = parent \<and> Some (cn_func T ! start) = Some f"
    then have "cn_prefix T ! start = parent" "cn_func T ! start = f" by simp_all
    from uniq [OF sl this] lt show False by simp
  qed
  then have "getCallNodeIndexFromParentAndFuncLoop T parent (Some f) start =
      getCallNodeIndexFromParentAndFuncLoop T parent (Some f) (start + 1)"
    using sl by (subst getCallNodeIndexFromParentAndFuncLoop.simps) auto
  also have "\<dots> = Some n" using Suc(2) lt by (intro Suc(1)) simp_all
  finally show ?case .
qed

lemma resolveSpec_append:
  "resolveSpec T index (xs @ ys) =
     (case resolveSpec T index xs of None \<Rightarrow> None | Some r \<Rightarrow> resolveSpec T r ys)"
  by (induction xs arbitrary: index) (simp_all split: option.splits)

lemma resolveSpec_pathTo:
  assumes wf: "wf_callNodeTable T" and d: "distinct_callNodes T"
  shows "n < cn_length T \<Longrightarrow> resolveSpec T (-1) (pathTo T n) = Some (int n)"
proof (induction n rule: less_induct)
  case (less n)
  have uniq: "k = n" if "k < cn_length T" "cn_prefix T ! k = cn_prefix T ! n"
    "cn_func T ! k = cn_func T ! n" for k
    using d that less.prems unfolding distinct_callNodes_def by blast
  show ?case
  proof (cases "cn_prefix T ! n = -1")
    case True
    have "getCallNodeIndexFromParentAndFunc (-1) (Some (cn_func T ! n)) T = Some n"
      unfolding getCallNodeIndexFromParentAndFunc_def
      by (rule scan_finds [OF less.prems True refl]) (use uniq True in simp_all)
    then show ?thesis by (simp add: pathTo_root [OF True])
  next
    case False
    note c = pathTo_child [OF wf less.prems False]
    let ?p = "nat (cn_prefix T ! n)"
    from c(2) less.prems have pl: "?p < cn_length T" by simp
    have "getCallNodeIndexFromParentAndFunc (int ?p) (Some (cn_func T ! n)) T = Some n"
      unfolding getCallNodeIndexFromParentAndFunc_def
      by (rule scan_finds [OF less.prems _ refl]) (use uniq c in simp_all)
    with less.IH [OF c(2) pl] show ?thesis
      by (simp add: c(1) resolveSpec_append)
  qed
qed


lemma findCachedParent_empty:
  "1 \<le> i \<Longrightarrow> \<exists>hs'. findCachedParent h p Map.empty i hs = (0, None, hs')"
proof (induction "nat i" arbitrary: i hs)
  case 0
  then show ?case by simp
next
  case (Suc d)
  show ?case
  proof (cases "i = 1")
    case True
    then show ?thesis by (subst findCachedParent.simps) simp
  next
    case False
    with Suc.prems have i: "1 \<le> i - 1" "i - 1 > 0" by simp_all
    from Suc(2) have "d = nat (i - 1)" by simp
    from Suc(1) [OF this i(1)]
    obtain hs' where "findCachedParent h p Map.empty (i - 1)
        (Some (h (take (nat (i - 1)) p)) # hs) = (0, None, hs')" by blast
    with i(2) show ?thesis by (subst findCachedParent.simps) (simp add: Let_def)
  qed
qed

definition finishIndex :: "int option \<Rightarrow> nat option" where
  "finishIndex r = (case r of None \<Rightarrow> None | Some x \<Rightarrow> if x < 0 then None else Some (nat x))"

lemma resolveFromParent_spec:
  "0 \<le> i \<Longrightarrow> fst (resolveFromParent p T i index hs cache) =
     finishIndex (resolveSpec T index (drop (nat i) p))"
proof (induction "length p - nat i" arbitrary: i index hs cache)
  case 0
  then have "\<not> i < int (length p)" by linarith
  moreover from 0 have "drop (nat i) p = []" by simp
  ultimately show ?case
    by (subst resolveFromParent.simps) (simp add: finishIndex_def)
next
  case (Suc d)
  then have lt: "i < int (length p)" by linarith
  with Suc.prems have nl: "nat i < length p" by linarith
  have dr: "drop (nat i) p = p ! nat i # drop (nat (i + 1)) p"
    using Cons_nth_drop_Suc [OF nl] Suc.prems by (simp add: nat_add_distrib)
  have at: "pathAt p i = Some (p ! nat i)"
    using lt Suc.prems by (simp add: pathAt_def)
  show ?case
  proof (cases "getCallNodeIndexFromParentAndFunc index (Some (p ! nat i)) T")
    case None
    with lt at show ?thesis
      by (subst resolveFromParent.simps) (simp add: dr finishIndex_def)
  next
    case (Some nx)
    have "d = length p - nat (i + 1)" using Suc(2) Suc.prems by linarith
    from Suc(1) [OF this] Suc.prems
    have "fst (resolveFromParent p T (i + 1) (int nx) (tl hs)
            (cache((case hs of [] \<Rightarrow> None | h # _ \<Rightarrow> h) \<mapsto> nx))) =
          finishIndex (resolveSpec T (int nx) (drop (nat (i + 1)) p))"
      by simp
    with Some lt at show ?thesis
      by (subst resolveFromParent.simps) (simp add: dr Let_def)
  qed
qed

lemma pathTo_nonempty: "pathTo T n \<noteq> []"
  by (subst pathTo.simps) simp

lemma roundtrip_wf:
  assumes wf: "wf_callNodeTable T" and d: "distinct_callNodes T" and n: "n < cn_length T"
  shows "getCallNodePathFromIndex (Some (int n)) T = Some (pathTo T n)"
    and "getCallNodeIndexFromPath hashPath (pathTo T n) T = Some n"
proof -
  show "getCallNodePathFromIndex (Some (int n)) T = Some (pathTo T n)"
    using callNodePathLoop_pathTo [OF wf n, of "[]"]
    by (simp add: getCallNodePathFromIndex_def)
  let ?p = "pathTo T n"
  have "1 \<le> int (length ?p)" using pathTo_nonempty [of T n] by (cases ?p) simp_all
  from findCachedParent_empty [OF this]
  obtain hs' where f: "findCachedParent hashPath ?p Map.empty (int (length ?p))
      [Some (hashPath ?p)] = (0, None, hs')" by blast
  have "fst (getCallNodeIndexFromPathWithCache hashPath ?p T Map.empty) =
      fst (resolveFromParent ?p T 0 (-1) hs' Map.empty)"
    by (simp add: getCallNodeIndexFromPathWithCache_def f)
  also have "\<dots> = finishIndex (resolveSpec T (-1) ?p)"
    using resolveFromParent_spec [of 0 ?p T "-1" hs' Map.empty] by simp
  also have "\<dots> = Some n"
    by (simp add: resolveSpec_pathTo [OF wf d n] finishIndex_def)
  finally have "fst (getCallNodeIndexFromPathWithCache hashPath ?p T Map.empty) = Some n" .
  then show "getCallNodeIndexFromPath hashPath ?p T = Some n"
    by (cases "getCallNodeIndexFromPathWithCache hashPath ?p T Map.empty")
       (simp add: getCallNodeIndexFromPath_def getCallNodeIndicesFromPaths_def)
qed

text \<open>
  C2. For the call-node table \<open>T\<close> that \<^verbatim>\<open>getCallNodeInfo\<close> returns on a well-formed stack
  table and every call-node index \<open>n\<close> of \<open>T\<close>: \<^verbatim>\<open>getCallNodePathFromIndex(n, T)\<close> returns a
  path, and \<^verbatim>\<open>getCallNodeIndexFromPath\<close> of that path in \<open>T\<close> returns \<open>n\<close>, whatever the hash
  function.
\<close>

theorem path_index_roundtrip:
  assumes "wf_stackTable stackTable frameTable funcTable defaultCategory"
    and "T = callNodeTable (getCallNodeInfo stackTable frameTable funcTable defaultCategory)"
    and "n < cn_length T"
  shows "\<exists>p. getCallNodePathFromIndex (Some (int n)) T = Some p \<and>
             getCallNodeIndexFromPath hashPath p T = Some n"
proof -
  have "wf_callNodeTable T" "distinct_callNodes T"
    unfolding assms(2)
    by (rule getCallNodeInfo_wf [OF assms(1)], rule getCallNodeInfo_distinct [OF assms(1)])
  from roundtrip_wf [OF this assms(3)] show ?thesis by blast
qed

theorem path_index_roundtrip_witness:
  "wf_stackTable exStackTable exFrameTable exFuncTable 7 \<and>
   2 < cn_length (callNodeTable (getCallNodeInfo exStackTable exFrameTable exFuncTable 7)) \<and>
   getCallNodePathFromIndex (Some 2)
     (callNodeTable (getCallNodeInfo exStackTable exFrameTable exFuncTable 7)) = Some [0, 1, 1] \<and>
   getCallNodeIndexFromPath (\<lambda>p. p) [0, 1, 1]
     (callNodeTable (getCallNodeInfo exStackTable exFrameTable exFuncTable 7)) = Some 2"
proof -
  let ?T = "callNodeTable (getCallNodeInfo exStackTable exFrameTable exFuncTable 7)"
  have len: "2 < cn_length ?T" by (simp add: exStackTable_callNodeInfo)
  from path_index_roundtrip [OF exStackTable_wf refl len, of "\<lambda>p. p"]
  obtain p where p: "getCallNodePathFromIndex (Some 2) ?T = Some p"
    "getCallNodeIndexFromPath (\<lambda>p. p) p ?T = Some 2" by auto
  have "getCallNodePathFromIndex (Some 2) ?T = Some [0, 1, 1]"
    by (simp add: exStackTable_callNodeInfo getCallNodePathFromIndex_def callNodePathLoop.simps)
  with p have "p = [0, 1, 1]" by simp
  with p exStackTable_wf len show ?thesis by simp
qed

section \<open>The tree-order comparator\<close>

text \<open>
  \<^verbatim>\<open>compareCallNodes\<close>. Its first two loops are the same loop on one of the two nodes:
  follow \<^verbatim>\<open>prefix\<close> and decrement the depth while it is above the depth of the other node.
\<close>

function walkToDepth :: "CallNodeTable \<Rightarrow> int \<Rightarrow> nat \<Rightarrow> nat \<Rightarrow> int \<times> nat" where
  "walkToDepth T callNode depth target =
     (if depth > target
      then walkToDepth T (cn_prefix T ! nat callNode) (depth - 1) target
      else (callNode, depth))"
  by pat_completeness auto
termination
  by (relation "measure (\<lambda>(T, callNode, depth, target). depth - target)") auto

declare walkToDepth.simps [simp del]

text \<open>
  The loop \<^verbatim>\<open>while (true)\<close> leaves only when the two parents are equal; \<open>None\<close> is a run that
  never leaves it.
\<close>

partial_function (option) walkToCommonParent ::
  "CallNodeTable \<Rightarrow> int \<Rightarrow> int \<Rightarrow> (int \<times> int) option" where
  "walkToCommonParent T callNodeA callNodeB =
     (if cn_prefix T ! nat callNodeA = cn_prefix T ! nat callNodeB
      then Some (callNodeA, callNodeB)
      else walkToCommonParent T (cn_prefix T ! nat callNodeA) (cn_prefix T ! nat callNodeB))"

definition compareCallNodes :: "CallNodeTable \<Rightarrow> nat \<Rightarrow> nat \<Rightarrow> int option" where
  "compareCallNodes T callNodeA callNodeB =
     (let initialDepthA = cn_depth T ! callNodeA;
          initialDepthB = cn_depth T ! callNodeB;
          (a, depthA) = walkToDepth T (int callNodeA) initialDepthA initialDepthB;
          (b, depthB) = walkToDepth T (int callNodeB) initialDepthB depthA
      in if a = b then Some (int initialDepthA - int initialDepthB)
         else map_option (\<lambda>(a', b'). a' - b') (walkToCommonParent T a b))"

text \<open>
  \<^verbatim>\<open>getTreeOrderComparator(callNodeTable, sampleCallNodes)\<close> is the function
  \<^verbatim>\<open>treeOrderComparator\<close> of two sample indices.
\<close>

definition getTreeOrderComparator ::
  "CallNodeTable \<Rightarrow> nat option list \<Rightarrow> nat \<Rightarrow> nat \<Rightarrow> int option" where
  "getTreeOrderComparator T sampleCallNodes = (\<lambda>sampleA sampleB.
     (case sampleCallNodes ! sampleA of
        None \<Rightarrow> (case sampleCallNodes ! sampleB of None \<Rightarrow> Some 0 | Some callNodeB \<Rightarrow> Some 1)
      | Some callNodeA \<Rightarrow>
          (case sampleCallNodes ! sampleB of
             None \<Rightarrow> Some (-1)
           | Some callNodeB \<Rightarrow> compareCallNodes T callNodeA callNodeB)))"

subsection \<open>The comparator is a strict weak order\<close>

text \<open>
  For the proofs: the call nodes on the way from the root to call node \<open>n\<close>. The comparator
  orders two call nodes as the lexicographic order orders these lists.
\<close>

function nodesTo :: "CallNodeTable \<Rightarrow> nat \<Rightarrow> nat list" where
  "nodesTo T n =
     (if 0 \<le> cn_prefix T ! n \<and> nat (cn_prefix T ! n) < n
      then nodesTo T (nat (cn_prefix T ! n)) @ [n]
      else [n])"
  by pat_completeness auto
termination
  by (relation "measure (\<lambda>(T, n). n)") auto

declare nodesTo.simps [simp del]

lemma nodesTo_root:
  assumes "cn_prefix T ! n = -1"
  shows "nodesTo T n = [n]"
  using assms by (simp add: nodesTo.simps [of T n])

lemma nodesTo_child:
  assumes "wf_callNodeTable T" "n < cn_length T" "cn_prefix T ! n \<noteq> -1"
  shows "nodesTo T n = nodesTo T (nat (cn_prefix T ! n)) @ [n]"
    and "nat (cn_prefix T ! n) < n" and "0 \<le> cn_prefix T ! n"
    and "nat (cn_prefix T ! n) < cn_length T"
    and "cn_depth T ! n = cn_depth T ! nat (cn_prefix T ! n) + 1"
proof -
  from wf_callNodeTableD(4,5) [OF assms(1,2)] assms(3)
  have p: "0 \<le> cn_prefix T ! n" "nat (cn_prefix T ! n) < n" by linarith+
  then show "nodesTo T n = nodesTo T (nat (cn_prefix T ! n)) @ [n]"
    by (simp add: nodesTo.simps [of T n])
  from p show "nat (cn_prefix T ! n) < n" "0 \<le> cn_prefix T ! n"
    by simp_all
  from p assms(2) show "nat (cn_prefix T ! n) < cn_length T" by simp
  from wf_callNodeTableD(6) [OF assms(1,2)] assms(3)
  show "cn_depth T ! n = cn_depth T ! nat (cn_prefix T ! n) + 1" by simp
qed

lemma depth_root:
  assumes "wf_callNodeTable T" "n < cn_length T"
  shows "cn_depth T ! n = 0 \<longleftrightarrow> cn_prefix T ! n = -1"
  using wf_callNodeTableD(6) [OF assms] by simp

lemma last_nodesTo: "last (nodesTo T n) = n"
  by (subst nodesTo.simps) simp

lemma nodesTo_inj: "nodesTo T a = nodesTo T b \<Longrightarrow> a = b"
  by (metis last_nodesTo)

lemma length_nodesTo:
  assumes wf: "wf_callNodeTable T"
  shows "n < cn_length T \<Longrightarrow> length (nodesTo T n) = cn_depth T ! n + 1"
proof (induction n rule: less_induct)
  case (less n)
  show ?case
  proof (cases "cn_prefix T ! n = -1")
    case True
    with depth_root [OF wf less.prems] show ?thesis by (simp add: nodesTo_root)
  next
    case False
    note c = nodesTo_child [OF wf less.prems False]
    from less.IH [OF c(2) c(4)] show ?thesis by (simp add: c(1) c(5))
  qed
qed

lemma walkToDepth_stay: "depth \<le> target \<Longrightarrow> walkToDepth T node depth target = (node, depth)"
  by (subst walkToDepth.simps) simp

lemma walkToDepth_nodesTo:
  assumes wf: "wf_callNodeTable T"
  shows "n < cn_length T \<Longrightarrow> t \<le> cn_depth T ! n \<Longrightarrow>
     \<exists>n'. walkToDepth T (int n) (cn_depth T ! n) t = (int n', t) \<and> n' < cn_length T \<and>
          cn_depth T ! n' = t \<and> nodesTo T n' = take (t + 1) (nodesTo T n)"
proof (induction "cn_depth T ! n - t" arbitrary: n)
  case 0
  then have e: "cn_depth T ! n = t" by simp
  have "walkToDepth T (int n) (cn_depth T ! n) t = (int n, t)"
    using e by (simp add: walkToDepth_stay)
  moreover have "take (t + 1) (nodesTo T n) = nodesTo T n"
    using length_nodesTo [OF wf 0(2)] e by simp
  ultimately show ?case using 0(2) e by auto
next
  case (Suc d)
  then have gt: "cn_depth T ! n > t" by simp
  then have "cn_depth T ! n \<noteq> 0" by simp
  with depth_root [OF wf Suc(3)] have nr: "cn_prefix T ! n \<noteq> -1" by simp
  note c = nodesTo_child [OF wf Suc(3) nr]
  let ?p = "nat (cn_prefix T ! n)"
  have dp: "cn_depth T ! ?p = cn_depth T ! n - 1" using c(5) by simp
  have "d = cn_depth T ! ?p - t" "t \<le> cn_depth T ! ?p" using Suc(2) gt dp by simp_all
  from Suc(1) [OF this(1) c(4) this(2)]
  obtain n' where n': "walkToDepth T (int ?p) (cn_depth T ! ?p) t = (int n', t)"
    "n' < cn_length T" "cn_depth T ! n' = t" "nodesTo T n' = take (t + 1) (nodesTo T ?p)"
    by blast
  have "walkToDepth T (int n) (cn_depth T ! n) t =
      walkToDepth T (cn_prefix T ! n) (cn_depth T ! n - 1) t"
    using gt by (subst walkToDepth.simps) simp
  also have "\<dots> = (int n', t)" using n'(1) c(3) dp by simp
  finally have w: "walkToDepth T (int n) (cn_depth T ! n) t = (int n', t)" .
  have "t + 1 \<le> length (nodesTo T ?p)"
    using length_nodesTo [OF wf c(4)] \<open>t \<le> cn_depth T ! ?p\<close> by simp
  then have "take (t + 1) (nodesTo T n) = take (t + 1) (nodesTo T ?p)"
    by (simp add: c(1))
  with w n' show ?case by auto
qed


lemma less_same_prefix: "x \<noteq> y \<Longrightarrow> (P @ x # xs < P @ y # ys) = (x < y)" for x y :: nat
  by (induction P) simp_all

lemma less_append_right: "ys \<noteq> [] \<Longrightarrow> xs < xs @ ys" for xs :: "nat list"
  by (induction xs) (cases ys, simp_all)

lemma take_less: "k < length xs \<Longrightarrow> take k xs < xs" for xs :: "nat list"
  using less_append_right [of "drop k xs" "take k xs"] by simp

lemma walkToCommonParent_nodesTo:
  assumes wf: "wf_callNodeTable T"
  shows "a < cn_length T \<Longrightarrow> b < cn_length T \<Longrightarrow> cn_depth T ! a = d \<Longrightarrow>
     cn_depth T ! b = d \<Longrightarrow> a \<noteq> b \<Longrightarrow>
     \<exists>a' b' P Xa Xb. walkToCommonParent T (int a) (int b) = Some (int a', int b') \<and>
        a' \<noteq> b' \<and> nodesTo T a = P @ a' # Xa \<and> nodesTo T b = P @ b' # Xb"
proof (induction d arbitrary: a b)
  case 0
  from depth_root [OF wf 0(1)] 0(3) have ra: "cn_prefix T ! a = -1" by simp
  from depth_root [OF wf 0(2)] 0(4) have rb: "cn_prefix T ! b = -1" by simp
  have "walkToCommonParent T (int a) (int b) = Some (int a, int b)"
    by (subst walkToCommonParent.simps) (simp add: ra rb)
  moreover have "nodesTo T a = [] @ a # []" "nodesTo T b = [] @ b # []"
    by (simp_all add: nodesTo_root ra rb)
  ultimately show ?case using 0(5) by blast
next
  case (Suc d)
  from depth_root [OF wf Suc(2)] Suc(4) have na: "cn_prefix T ! a \<noteq> -1" by simp
  from depth_root [OF wf Suc(3)] Suc(5) have nb: "cn_prefix T ! b \<noteq> -1" by simp
  note ca = nodesTo_child [OF wf Suc(2) na] and cb = nodesTo_child [OF wf Suc(3) nb]
  let ?pa = "nat (cn_prefix T ! a)" and ?pb = "nat (cn_prefix T ! b)"
  show ?case
  proof (cases "cn_prefix T ! a = cn_prefix T ! b")
    case True
    have "walkToCommonParent T (int a) (int b) = Some (int a, int b)"
      by (subst walkToCommonParent.simps) (simp add: True)
    moreover have "nodesTo T a = nodesTo T ?pa @ a # []" "nodesTo T b = nodesTo T ?pa @ b # []"
      using ca(1) cb(1) True by simp_all
    ultimately show ?thesis using Suc(6) by blast
  next
    case False
    with ca(3) cb(3) have ne: "?pa \<noteq> ?pb" by simp
    have da: "cn_depth T ! ?pa = d" and db: "cn_depth T ! ?pb = d"
      using ca(5) cb(5) Suc(4) Suc(5) by simp_all
    from Suc(1) [OF ca(4) cb(4) da db ne]
    obtain a' b' P Xa Xb where r:
      "walkToCommonParent T (int ?pa) (int ?pb) = Some (int a', int b')" "a' \<noteq> b'"
      "nodesTo T ?pa = P @ a' # Xa" "nodesTo T ?pb = P @ b' # Xb" by blast
    have "walkToCommonParent T (int a) (int b) =
        walkToCommonParent T (cn_prefix T ! a) (cn_prefix T ! b)"
      using False by (subst walkToCommonParent.simps) simp
    also have "\<dots> = Some (int a', int b')" using r(1) ca(3) cb(3) by simp
    finally have w: "walkToCommonParent T (int a) (int b) = Some (int a', int b')" .
    have "nodesTo T a = P @ a' # (Xa @ [a])" "nodesTo T b = P @ b' # (Xb @ [b])"
      by (simp_all add: ca(1) cb(1) r(3) r(4))
    with w r(2) show ?thesis by blast
  qed
qed

lemma compareCallNodes_levelled:
  assumes wf: "wf_callNodeTable T"
    and a1: "a1 < cn_length T" and b1: "b1 < cn_length T"
    and da: "cn_depth T ! a1 = t" and db: "cn_depth T ! b1 = t" and ne: "a1 \<noteq> b1"
    and ta: "nodesTo T a1 = take (t + 1) (nodesTo T a)"
    and tb: "nodesTo T b1 = take (t + 1) (nodesTo T b)"
  shows "\<exists>r. map_option (\<lambda>(a', b'). a' - b') (walkToCommonParent T (int a1) (int b1)) = Some r \<and>
     (r < 0 \<longleftrightarrow> nodesTo T a < nodesTo T b) \<and> r \<noteq> 0 \<and> nodesTo T a \<noteq> nodesTo T b"
proof -
  from walkToCommonParent_nodesTo [OF wf a1 b1 da db ne]
  obtain a' b' P Xa Xb where r:
    "walkToCommonParent T (int a1) (int b1) = Some (int a', int b')" "a' \<noteq> b'"
    "nodesTo T a1 = P @ a' # Xa" "nodesTo T b1 = P @ b' # Xb" by blast
  have "nodesTo T a = take (t + 1) (nodesTo T a) @ drop (t + 1) (nodesTo T a)" by simp
  then have A: "nodesTo T a = P @ a' # (Xa @ drop (t + 1) (nodesTo T a))"
    unfolding ta [symmetric] r(3) by simp
  have "nodesTo T b = take (t + 1) (nodesTo T b) @ drop (t + 1) (nodesTo T b)" by simp
  then have B: "nodesTo T b = P @ b' # (Xb @ drop (t + 1) (nodesTo T b))"
    unfolding tb [symmetric] r(4) by simp
  have lt: "(nodesTo T a < nodesTo T b) = (a' < b')"
    by (subst A, subst B) (rule less_same_prefix [OF r(2)])
  have neq: "nodesTo T a \<noteq> nodesTo T b"
    by (subst A, subst B) (use r(2) in simp)
  show ?thesis using r(1) r(2) lt neq by auto
qed

lemma compareCallNodes_key:
  assumes wf: "wf_callNodeTable T" and a: "a < cn_length T" and b: "b < cn_length T"
  shows "\<exists>r. compareCallNodes T a b = Some r \<and>
     (r < 0 \<longleftrightarrow> nodesTo T a < nodesTo T b) \<and> (r = 0 \<longleftrightarrow> nodesTo T a = nodesTo T b)"
proof -
  let ?dA = "cn_depth T ! a" and ?dB = "cn_depth T ! b"
  note la = length_nodesTo [OF wf a] and lb = length_nodesTo [OF wf b]
  show ?thesis
  proof (cases "?dA > ?dB")
    case True
    from walkToDepth_nodesTo [OF wf a, of ?dB] True
    obtain a1 where w: "walkToDepth T (int a) ?dA ?dB = (int a1, ?dB)" "a1 < cn_length T"
      "cn_depth T ! a1 = ?dB" "nodesTo T a1 = take (?dB + 1) (nodesTo T a)" by auto
    have wb: "walkToDepth T (int b) ?dB ?dB = (int b, ?dB)" by (simp add: walkToDepth_stay)
    have tb: "nodesTo T b = take (?dB + 1) (nodesTo T b)" using lb by simp
    show ?thesis
    proof (cases "a1 = b")
      case e: True
      have w1: "walkToDepth T (int a) ?dA ?dB = (int b, ?dB)" using w(1) e by simp
      have c: "compareCallNodes T a b = Some (int ?dA - int ?dB)"
        by (simp add: compareCallNodes_def w1 wb Let_def)
      have "nodesTo T b < nodesTo T a"
        using take_less [of "?dB + 1" "nodesTo T a"] la True w(4) e by simp
      then have "\<not> nodesTo T a < nodesTo T b" "nodesTo T a \<noteq> nodesTo T b" by auto
      with c True show ?thesis by simp
    next
      case ne: False
      from compareCallNodes_levelled [OF wf w(2) b w(3) refl ne w(4) tb]
      obtain r where r: "map_option (\<lambda>(a', b'). a' - b') (walkToCommonParent T (int a1) (int b)) = Some r"
        "(r < 0) = (nodesTo T a < nodesTo T b)" "r \<noteq> 0" "nodesTo T a \<noteq> nodesTo T b" by blast
      have "compareCallNodes T a b = Some r"
        using ne by (simp add: compareCallNodes_def w(1) wb r(1) Let_def)
      with r show ?thesis by simp
    qed
  next
    case False
    then have le: "?dA \<le> ?dB" by simp
    have wa: "walkToDepth T (int a) ?dA ?dB = (int a, ?dA)" using le by (simp add: walkToDepth_stay)
    from walkToDepth_nodesTo [OF wf b le]
    obtain b1 where w: "walkToDepth T (int b) ?dB ?dA = (int b1, ?dA)" "b1 < cn_length T"
      "cn_depth T ! b1 = ?dA" "nodesTo T b1 = take (?dA + 1) (nodesTo T b)" by auto
    have ta: "nodesTo T a = take (?dA + 1) (nodesTo T a)" using la by simp
    show ?thesis
    proof (cases "a = b1")
      case e: True
      have w1: "walkToDepth T (int b) ?dB ?dA = (int a, ?dA)" using w(1) e by simp
      have c: "compareCallNodes T a b = Some (int ?dA - int ?dB)"
        by (simp add: compareCallNodes_def wa w1 Let_def)
      show ?thesis
      proof (cases "?dA = ?dB")
        case True
        with w(4) lb e have "nodesTo T a = nodesTo T b" by simp
        with c True show ?thesis by simp
      next
        case False
        with le have lt: "?dA < ?dB" by simp
        have "nodesTo T a < nodesTo T b"
          using take_less [of "?dA + 1" "nodesTo T b"] lb lt w(4) e by simp
        then have "nodesTo T a \<noteq> nodesTo T b" by auto
        with c lt \<open>nodesTo T a < nodesTo T b\<close> show ?thesis by simp
      qed
    next
      case ne: False
      from compareCallNodes_levelled [OF wf a w(2) refl w(3) ne ta w(4)]
      obtain r where r: "map_option (\<lambda>(a', b'). a' - b') (walkToCommonParent T (int a) (int b1)) = Some r"
        "(r < 0) = (nodesTo T a < nodesTo T b)" "r \<noteq> 0" "nodesTo T a \<noteq> nodesTo T b" by blast
      have "compareCallNodes T a b = Some r"
        using ne by (simp add: compareCallNodes_def wa w(1) r(1) Let_def)
      with r show ?thesis by simp
    qed
  qed
qed


text \<open>
  The key of a sample: the list of its call node, or a list above all of them when the
  call node is \<^verbatim>\<open>null\<close>. A list of sample call nodes is valid for a table when every call
  node in it is an index of the table.
\<close>

definition sampleKey :: "CallNodeTable \<Rightarrow> nat option list \<Rightarrow> nat \<Rightarrow> nat list" where
  "sampleKey T sampleCallNodes s =
     (case sampleCallNodes ! s of None \<Rightarrow> [cn_length T] | Some c \<Rightarrow> nodesTo T c)"

definition valid_sampleCallNodes :: "CallNodeTable \<Rightarrow> nat option list \<Rightarrow> bool" where
  "valid_sampleCallNodes T sampleCallNodes \<longleftrightarrow>
     (\<forall>s < length sampleCallNodes. \<forall>c. sampleCallNodes ! s = Some c \<longrightarrow> c < cn_length T)"

lemma nodesTo_nonempty: "nodesTo T n \<noteq> []"
  by (subst nodesTo.simps) simp

lemma nodesTo_below_length:
  assumes wf: "wf_callNodeTable T"
  shows "n < cn_length T \<Longrightarrow> nodesTo T n < [cn_length T]"
proof (induction n rule: less_induct)
  case (less n)
  show ?case
  proof (cases "cn_prefix T ! n = -1")
    case True
    with less.prems show ?thesis by (simp add: nodesTo_root)
  next
    case False
    note c = nodesTo_child [OF wf less.prems False]
    from less.IH [OF c(2) c(4)] nodesTo_nonempty [of T "nat (cn_prefix T ! n)"] show ?thesis
      by (cases "nodesTo T (nat (cn_prefix T ! n))") (simp_all add: c(1))
  qed
qed

lemma treeOrderComparator_key:
  assumes wf: "wf_callNodeTable T" and valid: "valid_sampleCallNodes T sampleCallNodes"
    and a: "a < length sampleCallNodes" and b: "b < length sampleCallNodes"
  shows "\<exists>x. getTreeOrderComparator T sampleCallNodes a b = Some x \<and>
     (x < 0 \<longleftrightarrow> sampleKey T sampleCallNodes a < sampleKey T sampleCallNodes b) \<and>
     (x = 0 \<longleftrightarrow> sampleKey T sampleCallNodes a = sampleKey T sampleCallNodes b)"
proof (cases "sampleCallNodes ! a")
  case None
  note na = None
  show ?thesis
  proof (cases "sampleCallNodes ! b")
    case None
    with na show ?thesis by (simp add: getTreeOrderComparator_def sampleKey_def)
  next
    case (Some cb)
    with valid b have "cb < cn_length T" unfolding valid_sampleCallNodes_def by blast
    from nodesTo_below_length [OF wf this]
    have "\<not> [cn_length T] < nodesTo T cb" "[cn_length T] \<noteq> nodesTo T cb" by auto
    with na Some show ?thesis by (simp add: getTreeOrderComparator_def sampleKey_def)
  qed
next
  case (Some ca)
  note sa = Some
  with valid a have ca: "ca < cn_length T" unfolding valid_sampleCallNodes_def by blast
  show ?thesis
  proof (cases "sampleCallNodes ! b")
    case None
    from nodesTo_below_length [OF wf ca]
    have "nodesTo T ca < [cn_length T]" "nodesTo T ca \<noteq> [cn_length T]" by auto
    with sa None show ?thesis by (simp add: getTreeOrderComparator_def sampleKey_def)
  next
    case (Some cb)
    with valid b have cb: "cb < cn_length T" unfolding valid_sampleCallNodes_def by blast
    from compareCallNodes_key [OF wf ca cb] sa Some show ?thesis
      by (simp add: getTreeOrderComparator_def sampleKey_def)
  qed
qed

text \<open>
  C7. On a call-node table with the shape of C1 and sample call nodes inside the table, for
  all samples \<open>a\<close>, \<open>b\<close>, \<open>c\<close> the comparator returns, \<^verbatim>\<open>cmp(a, a) == 0\<close>, the signs of
  \<^verbatim>\<open>cmp(a, b)\<close> and \<^verbatim>\<open>cmp(b, a)\<close> are opposite, "before" (\<open>< 0\<close>), "not after" (\<open>\<le> 0\<close>) and
  "equal" (\<open>= 0\<close>) are transitive, a sample with a \<^verbatim>\<open>null\<close> call node compares after one with
  a call node, and two samples with \<^verbatim>\<open>null\<close> call nodes compare equal.
\<close>

theorem treeOrderComparator_strict_weak_order:
  assumes wf: "wf_callNodeTable T" and valid: "valid_sampleCallNodes T sampleCallNodes"
    and a: "a < length sampleCallNodes" and b: "b < length sampleCallNodes"
    and c: "c < length sampleCallNodes"
  shows "getTreeOrderComparator T sampleCallNodes a a = Some 0 \<and>
     (\<exists>x x' y z.
        getTreeOrderComparator T sampleCallNodes a b = Some x \<and>
        getTreeOrderComparator T sampleCallNodes b a = Some x' \<and>
        getTreeOrderComparator T sampleCallNodes b c = Some y \<and>
        getTreeOrderComparator T sampleCallNodes a c = Some z \<and>
        sgn x = - sgn x' \<and>
        (x < 0 \<and> y < 0 \<longrightarrow> z < 0) \<and>
        (x \<le> 0 \<and> y \<le> 0 \<longrightarrow> z \<le> 0) \<and>
        (x = 0 \<and> y = 0 \<longrightarrow> z = 0) \<and>
        (sampleCallNodes ! a = None \<and> sampleCallNodes ! b \<noteq> None \<longrightarrow> 0 < x) \<and>
        (sampleCallNodes ! a \<noteq> None \<and> sampleCallNodes ! b = None \<longrightarrow> x < 0) \<and>
        (sampleCallNodes ! a = None \<and> sampleCallNodes ! b = None \<longrightarrow> x = 0))"
proof -
  let ?cmp = "getTreeOrderComparator T sampleCallNodes"
  let ?k = "sampleKey T sampleCallNodes"
  from treeOrderComparator_key [OF wf valid a a]
  have aa: "?cmp a a = Some 0" by auto
  from treeOrderComparator_key [OF wf valid a b]
  obtain x where x: "?cmp a b = Some x" "(x < 0) = (?k a < ?k b)" "(x = 0) = (?k a = ?k b)"
    by blast
  from treeOrderComparator_key [OF wf valid b a]
  obtain x' where x': "?cmp b a = Some x'" "(x' < 0) = (?k b < ?k a)" "(x' = 0) = (?k b = ?k a)"
    by blast
  from treeOrderComparator_key [OF wf valid b c]
  obtain y where y: "?cmp b c = Some y" "(y < 0) = (?k b < ?k c)" "(y = 0) = (?k b = ?k c)"
    by blast
  from treeOrderComparator_key [OF wf valid a c]
  obtain z where z: "?cmp a c = Some z" "(z < 0) = (?k a < ?k c)" "(z = 0) = (?k a = ?k c)"
    by blast
  have xle: "(x \<le> 0) = (?k a \<le> ?k b)" using x(2,3) by (auto simp: order.order_iff_strict)
  have yle: "(y \<le> 0) = (?k b \<le> ?k c)" using y(2,3) by (auto simp: order.order_iff_strict)
  have zle: "(z \<le> 0) = (?k a \<le> ?k c)" using z(2,3) by (auto simp: order.order_iff_strict)
  have s: "sgn x = - sgn x'"
  proof (cases "?k a" "?k b" rule: linorder_cases)
    case less
    with x(2) x'(2,3) have "x < 0" "0 < x'" by auto
    then show ?thesis by simp
  next
    case equal
    with x(3) x'(3) show ?thesis by simp
  next
    case greater
    with x(2,3) x'(2) have "0 < x" "x' < 0" by auto
    then show ?thesis by simp
  qed
  have t1: "x < 0 \<and> y < 0 \<longrightarrow> z < 0" unfolding x(2) y(2) z(2) by auto
  have t2: "x \<le> 0 \<and> y \<le> 0 \<longrightarrow> z \<le> 0" unfolding xle yle zle by auto
  have t3: "x = 0 \<and> y = 0 \<longrightarrow> z = 0" unfolding x(3) y(3) z(3) by auto
  have n1: "sampleCallNodes ! a = None \<and> sampleCallNodes ! b \<noteq> None \<longrightarrow> 0 < x"
    using x(1) by (auto simp: getTreeOrderComparator_def)
  have n2: "sampleCallNodes ! a \<noteq> None \<and> sampleCallNodes ! b = None \<longrightarrow> x < 0"
    using x(1) by (auto simp: getTreeOrderComparator_def)
  have n3: "sampleCallNodes ! a = None \<and> sampleCallNodes ! b = None \<longrightarrow> x = 0"
    using x(1) by (auto simp: getTreeOrderComparator_def)
  from aa x(1) x'(1) y(1) z(1) s t1 t2 t3 n1 n2 n3 show ?thesis by blast
qed


text \<open>Four samples on the example table; the second one is filtered out.\<close>

definition exSampleCallNodes :: "nat option list" where
  "exSampleCallNodes = [Some 2, None, Some 0, Some 1]"

theorem treeOrderComparator_strict_weak_order_witness:
  "wf_callNodeTable (callNodeTable (getCallNodeInfo exStackTable exFrameTable exFuncTable 7)) \<and>
   valid_sampleCallNodes (callNodeTable (getCallNodeInfo exStackTable exFrameTable exFuncTable 7))
     exSampleCallNodes \<and>
   2 < length exSampleCallNodes \<and> 3 < length exSampleCallNodes \<and> 0 < length exSampleCallNodes \<and>
   getTreeOrderComparator (callNodeTable (getCallNodeInfo exStackTable exFrameTable exFuncTable 7))
     exSampleCallNodes 2 2 = Some 0 \<and>
   getTreeOrderComparator (callNodeTable (getCallNodeInfo exStackTable exFrameTable exFuncTable 7))
     exSampleCallNodes 2 3 = Some (-1) \<and>
   getTreeOrderComparator (callNodeTable (getCallNodeInfo exStackTable exFrameTable exFuncTable 7))
     exSampleCallNodes 3 2 = Some 1 \<and>
   getTreeOrderComparator (callNodeTable (getCallNodeInfo exStackTable exFrameTable exFuncTable 7))
     exSampleCallNodes 3 0 = Some (-1) \<and>
   getTreeOrderComparator (callNodeTable (getCallNodeInfo exStackTable exFrameTable exFuncTable 7))
     exSampleCallNodes 2 0 = Some (-2)"
proof -
  let ?T = "callNodeTable (getCallNodeInfo exStackTable exFrameTable exFuncTable 7)"
  have wf: "wf_callNodeTable ?T" by (rule getCallNodeInfo_wf [OF exStackTable_wf])
  have valid: "valid_sampleCallNodes ?T exSampleCallNodes"
    by (simp add: valid_sampleCallNodes_def exSampleCallNodes_def exStackTable_callNodeInfo
        all_less_upt upt_4)
  have l: "2 < length exSampleCallNodes" "3 < length exSampleCallNodes"
    "0 < length exSampleCallNodes"
    by (simp_all add: exSampleCallNodes_def)
  from treeOrderComparator_strict_weak_order [OF wf valid l]
  have aa: "getTreeOrderComparator ?T exSampleCallNodes 2 2 = Some 0" by blast
  have e: "getTreeOrderComparator ?T exSampleCallNodes 2 3 = Some (-1)"
    "getTreeOrderComparator ?T exSampleCallNodes 3 2 = Some 1"
    "getTreeOrderComparator ?T exSampleCallNodes 3 0 = Some (-1)"
    "getTreeOrderComparator ?T exSampleCallNodes 2 0 = Some (-2)"
    by (simp_all add: getTreeOrderComparator_def exSampleCallNodes_def compareCallNodes_def
        exStackTable_callNodeInfo walkToDepth.simps walkToCommonParent.simps Let_def)
  from wf valid l aa e show ?thesis by simp
qed

section \<open>Samples, threads and the time-range filter\<close>

text \<open>
  \<^verbatim>\<open>SamplesTable\<close>: \<^verbatim>\<open>weight\<close>, \<^verbatim>\<open>eventDelay\<close>, \<^verbatim>\<open>responsiveness\<close> and \<^verbatim>\<open>threadCPUDelta\<close> are
  optional columns; an entry of the last three may be \<^verbatim>\<open>null\<close>. Of a \<^verbatim>\<open>Thread\<close> the record
  has the fields that the functions below read; the string table is its \<^verbatim>\<open>getString\<close>.
\<close>

record SamplesTable =
  sa_time :: "rat list"
  sa_weight :: "rat list option"
  sa_weightType :: string
  sa_stack :: "nat option list"
  sa_eventDelay :: "rat option list option"
  sa_responsiveness :: "rat option list option"
  sa_threadCPUDelta :: "rat option list option"
  sa_length :: nat

record JsAllocationsTable =
  ja_time :: "rat list"
  ja_className :: "string list"
  ja_typeName :: "string list"
  ja_coarseType :: "string list"
  ja_weight :: "int list"
  ja_weightType :: string
  ja_inNursery :: "bool list"
  ja_stack :: "nat option list"
  ja_length :: nat

record Thread =
  th_samples :: SamplesTable
  th_jsAllocations :: "JsAllocationsTable option"
  th_nativeAllocations :: "NativeAllocationsTable option"
  th_stackTable :: StackTable
  th_frameTable :: FrameTable
  th_funcTable :: FuncTable
  th_stringTable :: "nat \<Rightarrow> string"

text \<open>\<^verbatim>\<open>array.slice(b, e)\<close> for indices that are not negative.\<close>

definition slice :: "'a list \<Rightarrow> nat \<Rightarrow> nat \<Rightarrow> 'a list" where
  "slice xs b e = take (e - b) (drop b xs)"

text \<open>
  Modelled from the spec: \<^verbatim>\<open>bisectionLeft\<close> is imported from \<^verbatim>\<open>firefox-profiler/utils/bisect\<close>,
  which is not among the sources. The spec describes it as the binary search for the
  leftmost position; it is the bisection loop between \<^verbatim>\<open>low\<close> (0 when absent) and the length
  of the array, which moves \<^verbatim>\<open>low\<close> past \<^verbatim>\<open>mid\<close> exactly when \<^verbatim>\<open>array[mid] < x\<close>.
\<close>

function bisectionLeftLoop :: "rat list \<Rightarrow> rat \<Rightarrow> nat \<Rightarrow> nat \<Rightarrow> nat" where
  "bisectionLeftLoop array x low high =
     (if low < high
      then (let mid = (low + high) div 2
            in if array ! mid < x
               then bisectionLeftLoop array x (mid + 1) high
               else bisectionLeftLoop array x low mid)
      else low)"
  by pat_completeness auto
termination
  by (relation "measure (\<lambda>(array, x, low, high). high - low)") auto

declare bisectionLeftLoop.simps [simp del]

definition bisectionLeft :: "rat list \<Rightarrow> rat \<Rightarrow> nat option \<Rightarrow> nat" where
  "bisectionLeft array x low =
     bisectionLeftLoop array x (case low of None \<Rightarrow> 0 | Some l \<Rightarrow> l) (length array)"

text \<open>
  \<^verbatim>\<open>getSampleIndexRangeForSelection\<close> reads only the \<^verbatim>\<open>time\<close> column of the table it is
  given, so it takes that column.
\<close>

definition getSampleIndexRangeForSelection :: "rat list \<Rightarrow> rat \<Rightarrow> rat \<Rightarrow> nat \<times> nat" where
  "getSampleIndexRangeForSelection time rangeStart rangeEnd =
     (let sampleStart = bisectionLeft time rangeStart None;
          sampleEnd = bisectionLeft time rangeEnd (Some sampleStart)
      in (sampleStart, sampleEnd))"

text \<open>
  \<^verbatim>\<open>filterThreadSamplesToRange\<close>. The two branches that rebuild the native allocations are
  \<open>sliceNativeAllocations\<close>.
\<close>

definition sliceNativeAllocations ::
  "NativeAllocationsTable \<Rightarrow> nat \<Rightarrow> nat \<Rightarrow> NativeAllocationsTable" where
  "sliceNativeAllocations nativeAllocations startAllocIndex endAllocIndex =
     (case nativeAllocations of
        Balanced t \<Rightarrow>
          Balanced \<lparr> na_time = slice (na_time t) startAllocIndex endAllocIndex,
                     na_weight = slice (na_weight t) startAllocIndex endAllocIndex,
                     na_weightType = na_weightType t,
                     na_stack = slice (na_stack t) startAllocIndex endAllocIndex,
                     na_length = endAllocIndex - startAllocIndex,
                     na_memoryAddress = slice (na_memoryAddress t) startAllocIndex endAllocIndex,
                     na_threadId = slice (na_threadId t) startAllocIndex endAllocIndex \<rparr>
      | Unbalanced t \<Rightarrow>
          Unbalanced \<lparr> na_time = slice (na_time t) startAllocIndex endAllocIndex,
                       na_weight = slice (na_weight t) startAllocIndex endAllocIndex,
                       na_weightType = na_weightType t,
                       na_stack = slice (na_stack t) startAllocIndex endAllocIndex,
                       na_length = endAllocIndex - startAllocIndex \<rparr>)"

definition nativeAllocationsTime :: "NativeAllocationsTable \<Rightarrow> rat list" where
  "nativeAllocationsTime nativeAllocations =
     (case nativeAllocations of Balanced t \<Rightarrow> na_time t | Unbalanced t \<Rightarrow> na_time t)"

definition filterThreadSamplesToRange :: "Thread \<Rightarrow> rat \<Rightarrow> rat \<Rightarrow> Thread" where
  "filterThreadSamplesToRange thread rangeStart rangeEnd =
     (let samples = th_samples thread;
          (beginSampleIndex, endSampleIndex) =
             getSampleIndexRangeForSelection (sa_time samples) rangeStart rangeEnd;
          newSamples =
            \<lparr> sa_time = slice (sa_time samples) beginSampleIndex endSampleIndex,
              sa_weight = map_option (\<lambda>w. slice w beginSampleIndex endSampleIndex)
                            (sa_weight samples),
              sa_weightType = sa_weightType samples,
              sa_stack = slice (sa_stack samples) beginSampleIndex endSampleIndex,
              sa_eventDelay = map_option (\<lambda>d. slice d beginSampleIndex endSampleIndex)
                                (sa_eventDelay samples),
              sa_responsiveness =
                (case sa_eventDelay samples of
                   Some d \<Rightarrow> None
                 | None \<Rightarrow> map_option (\<lambda>r. slice r beginSampleIndex endSampleIndex)
                             (sa_responsiveness samples)),
              sa_threadCPUDelta = map_option (\<lambda>c. slice c beginSampleIndex endSampleIndex)
                                    (sa_threadCPUDelta samples),
              sa_length = endSampleIndex - beginSampleIndex \<rparr>;
          newThread = thread\<lparr> th_samples := newSamples \<rparr>;
          newThread = (case th_jsAllocations thread of
             None \<Rightarrow> newThread
           | Some jsAllocations \<Rightarrow>
               (let (startAllocIndex, endAllocIndex) =
                      getSampleIndexRangeForSelection (ja_time jsAllocations) rangeStart rangeEnd
                in newThread\<lparr> th_jsAllocations := Some
                     \<lparr> ja_time = slice (ja_time jsAllocations) startAllocIndex endAllocIndex,
                       ja_className = slice (ja_className jsAllocations) startAllocIndex endAllocIndex,
                       ja_typeName = slice (ja_typeName jsAllocations) startAllocIndex endAllocIndex,
                       ja_coarseType = slice (ja_coarseType jsAllocations) startAllocIndex endAllocIndex,
                       ja_weight = slice (ja_weight jsAllocations) startAllocIndex endAllocIndex,
                       ja_weightType = ja_weightType jsAllocations,
                       ja_inNursery = slice (ja_inNursery jsAllocations) startAllocIndex endAllocIndex,
                       ja_stack = slice (ja_stack jsAllocations) startAllocIndex endAllocIndex,
                       ja_length = endAllocIndex - startAllocIndex \<rparr> \<rparr>))
      in (case th_nativeAllocations thread of
             None \<Rightarrow> newThread
           | Some nativeAllocations \<Rightarrow>
               (let (startAllocIndex, endAllocIndex) =
                      getSampleIndexRangeForSelection (nativeAllocationsTime nativeAllocations)
                        rangeStart rangeEnd
                in newThread\<lparr> th_nativeAllocations := Some
                     (sliceNativeAllocations nativeAllocations startAllocIndex endAllocIndex) \<rparr>)))"

lemma bisectionLeftLoop_correct:
  "sorted xs \<Longrightarrow> low \<le> high \<Longrightarrow> high \<le> length xs \<Longrightarrow>
     (\<forall>i. l0 \<le> i \<and> i < low \<longrightarrow> xs ! i < x) \<Longrightarrow>
     (\<forall>i. high \<le> i \<and> i < length xs \<longrightarrow> x \<le> xs ! i) \<Longrightarrow>
     low \<le> bisectionLeftLoop xs x low high \<and> bisectionLeftLoop xs x low high \<le> high \<and>
     (\<forall>i. l0 \<le> i \<and> i < bisectionLeftLoop xs x low high \<longrightarrow> xs ! i < x) \<and>
     (\<forall>i. bisectionLeftLoop xs x low high \<le> i \<and> i < length xs \<longrightarrow> x \<le> xs ! i)"
proof (induction xs x low high rule: bisectionLeftLoop.induct)
  case (1 array x low high)
  note s = "1.prems"(1) and lh = "1.prems"(2) and hl = "1.prems"(3)
    and lo = "1.prems"(4) and hi = "1.prems"(5)
  show ?case
  proof (cases "low < high")
    case False
    with lh have "low = high" by simp
    with lo hi show ?thesis by (subst (1 2 3 4) bisectionLeftLoop.simps) simp
  next
    case True
    let ?mid = "(low + high) div 2"
    have m: "low \<le> ?mid" "?mid < high" using True by linarith+
    with hl have ml: "?mid < length array" by simp
    show ?thesis
    proof (cases "array ! ?mid < x")
      case lt: True
      have below: "\<forall>i. l0 \<le> i \<and> i < ?mid + 1 \<longrightarrow> array ! i < x"
      proof (intro allI impI)
        fix i assume "l0 \<le> i \<and> i < ?mid + 1"
        then have "i \<le> ?mid" by simp
        from sorted_nth_mono [OF s this ml] lt show "array ! i < x" by simp
      qed
      have e: "bisectionLeftLoop array x low high = bisectionLeftLoop array x (?mid + 1) high"
        using True lt by (subst bisectionLeftLoop.simps) (simp add: Let_def)
      from m have "?mid + 1 \<le> high" by simp
      from "1.IH"(1) [OF True refl lt s this hl below hi] m
      show ?thesis unfolding e by simp
    next
      case ge: False
      have above: "\<forall>i. ?mid \<le> i \<and> i < length array \<longrightarrow> x \<le> array ! i"
      proof (intro allI impI)
        fix i assume i: "?mid \<le> i \<and> i < length array"
        from sorted_nth_mono [OF s, of ?mid i] i ge show "x \<le> array ! i" by simp
      qed
      have e: "bisectionLeftLoop array x low high = bisectionLeftLoop array x low ?mid"
        using True ge by (subst bisectionLeftLoop.simps) (simp add: Let_def)
      from ml have "?mid \<le> length array" by simp
      from "1.IH"(2) [OF True refl ge s m(1) this lo above] m
      show ?thesis unfolding e by simp
    qed
  qed
qed


lemma getSampleIndexRangeForSelection_correct:
  assumes s: "sorted xs"
    and r: "(b, e) = getSampleIndexRangeForSelection xs rangeStart rangeEnd"
  shows "b \<le> e" "e \<le> length xs"
    "\<And>i. i < length xs \<Longrightarrow> (b \<le> i \<and> i < e) = (rangeStart \<le> xs ! i \<and> xs ! i < rangeEnd)"
proof -
  from r have b: "b = bisectionLeftLoop xs rangeStart 0 (length xs)"
    and e: "e = bisectionLeftLoop xs rangeEnd b (length xs)"
    by (simp_all add: getSampleIndexRangeForSelection_def bisectionLeft_def Let_def)
  have B: "b \<le> length xs" "\<forall>i. 0 \<le> i \<and> i < b \<longrightarrow> xs ! i < rangeStart"
    "\<forall>i. b \<le> i \<and> i < length xs \<longrightarrow> rangeStart \<le> xs ! i"
    using bisectionLeftLoop_correct [OF s, of 0 "length xs" 0 rangeStart] unfolding b by simp_all
  have E: "b \<le> e" "e \<le> length xs" "\<forall>i. b \<le> i \<and> i < e \<longrightarrow> xs ! i < rangeEnd"
    "\<forall>i. e \<le> i \<and> i < length xs \<longrightarrow> rangeEnd \<le> xs ! i"
    using bisectionLeftLoop_correct [OF s B(1), of b rangeEnd] unfolding e by simp_all
  show "b \<le> e" "e \<le> length xs" by (rule E(1), rule E(2))
  fix i assume i: "i < length xs"
  show "(b \<le> i \<and> i < e) = (rangeStart \<le> xs ! i \<and> xs ! i < rangeEnd)"
  proof
    assume "b \<le> i \<and> i < e"
    with B(3) E(3) i show "rangeStart \<le> xs ! i \<and> xs ! i < rangeEnd" by simp
  next
    assume a: "rangeStart \<le> xs ! i \<and> xs ! i < rangeEnd"
    have "b \<le> i"
    proof (rule ccontr)
      assume "\<not> b \<le> i"
      with B(2) have "xs ! i < rangeStart" by simp
      with a show False by simp
    qed
    moreover have "i < e"
    proof (rule ccontr)
      assume "\<not> i < e"
      with E(4) i have "rangeEnd \<le> xs ! i" by simp
      with a show False by simp
    qed
    ultimately show "b \<le> i \<and> i < e" ..
  qed
qed

lemma filter_slice:
  assumes "b \<le> e" "e \<le> length xs"
    and P: "\<And>i. i < length xs \<Longrightarrow> P (xs ! i) = (b \<le> i \<and> i < e)"
  shows "filter P xs = slice xs b e"
proof -
  have split: "xs = take b xs @ slice xs b e @ drop e xs"
  proof -
    have "drop b xs = take (e - b) (drop b xs) @ drop (e - b) (drop b xs)"
      by (simp only: append_take_drop_id)
    moreover have "drop (e - b) (drop b xs) = drop e xs" using assms(1) by simp
    ultimately have "drop b xs = slice xs b e @ drop e xs"
      by (simp only: slice_def)
    then have "take b xs @ drop b xs = take b xs @ slice xs b e @ drop e xs"
      by (simp only:)
    then show ?thesis by (simp only: append_take_drop_id)
  qed
  have 1: "filter P (take b xs) = []"
  proof (rule filter_False, rule ballI)
    fix x assume "x \<in> set (take b xs)"
    then obtain i where "i < length (take b xs)" "x = take b xs ! i"
      by (auto simp: in_set_conv_nth)
    then have "i < length xs" "i < b" "x = xs ! i" by simp_all
    with P [of i] show "\<not> P x" by simp
  qed
  have 2: "filter P (slice xs b e) = slice xs b e"
  proof (rule filter_True, rule ballI)
    fix x assume "x \<in> set (slice xs b e)"
    then obtain i where i: "i < length (slice xs b e)" "x = slice xs b e ! i"
      by (auto simp: in_set_conv_nth)
    then have "i < e - b" "b + i < length xs" using assms(1,2) by (simp_all add: slice_def)
    moreover from this i(2) have "x = xs ! (b + i)" by (simp add: slice_def)
    ultimately show "P x" using P [of "b + i"] by simp
  qed
  have 3: "filter P (drop e xs) = []"
  proof (rule filter_False, rule ballI)
    fix x assume "x \<in> set (drop e xs)"
    then obtain i where i: "i < length (drop e xs)" "x = drop e xs ! i"
      by (auto simp: in_set_conv_nth)
    then have "e + i < length xs" "x = xs ! (e + i)" using assms(2) by simp_all
    with P [of "e + i"] show "\<not> P x" by simp
  qed
  have "filter P xs = filter P (take b xs @ slice xs b e @ drop e xs)"
    using split by simp
  also have "\<dots> = slice xs b e" by (simp add: 1 2 3)
  finally show ?thesis .
qed

lemma filterThreadSamplesToRange_samples:
  assumes "(b, e) = getSampleIndexRangeForSelection (sa_time (th_samples thread)) rangeStart rangeEnd"
  shows "th_samples (filterThreadSamplesToRange thread rangeStart rangeEnd) =
     \<lparr> sa_time = slice (sa_time (th_samples thread)) b e,
       sa_weight = map_option (\<lambda>w. slice w b e) (sa_weight (th_samples thread)),
       sa_weightType = sa_weightType (th_samples thread),
       sa_stack = slice (sa_stack (th_samples thread)) b e,
       sa_eventDelay = map_option (\<lambda>d. slice d b e) (sa_eventDelay (th_samples thread)),
       sa_responsiveness =
         (case sa_eventDelay (th_samples thread) of
            Some d \<Rightarrow> None
          | None \<Rightarrow> map_option (\<lambda>r. slice r b e) (sa_responsiveness (th_samples thread))),
       sa_threadCPUDelta = map_option (\<lambda>c. slice c b e) (sa_threadCPUDelta (th_samples thread)),
       sa_length = e - b \<rparr>"
  unfolding filterThreadSamplesToRange_def Let_def assms [symmetric]
  by (simp split: option.splits prod.splits)


text \<open>
  C6. For samples sorted by time, \<^verbatim>\<open>filterThreadSamplesToRange\<close> keeps the index range
  \<open>[b, e)\<close> computed by \<^verbatim>\<open>getSampleIndexRangeForSelection\<close>, and a sample is in that range
  exactly when \<^verbatim>\<open>rangeStart <= time < rangeEnd\<close>: a sample at \<^verbatim>\<open>rangeStart\<close> is kept (when the
  interval is not empty) and a sample at \<^verbatim>\<open>rangeEnd\<close> is dropped. The new \<^verbatim>\<open>time\<close> column is the
  old one filtered to the half-open interval, and every column of the new samples table is
  the slice \<open>[b, e)\<close> of the old one. On the times \<open>[0, 5, 10, 15]\<close> and the range from 5 to
  15 the result has the times \<open>[5, 10]\<close>.
\<close>

theorem filterThreadSamplesToRange_half_open:
  assumes sorted: "sorted (sa_time (th_samples thread))"
    and range: "(b, e) =
       getSampleIndexRangeForSelection (sa_time (th_samples thread)) rangeStart rangeEnd"
    and new: "new = th_samples (filterThreadSamplesToRange thread rangeStart rangeEnd)"
  shows "b \<le> e \<and> e \<le> length (sa_time (th_samples thread)) \<and>
     (\<forall>i < length (sa_time (th_samples thread)).
        (b \<le> i \<and> i < e) =
        (rangeStart \<le> sa_time (th_samples thread) ! i \<and>
         sa_time (th_samples thread) ! i < rangeEnd)) \<and>
     sa_time new = filter (\<lambda>t. rangeStart \<le> t \<and> t < rangeEnd) (sa_time (th_samples thread)) \<and>
     sa_time new = slice (sa_time (th_samples thread)) b e \<and>
     sa_stack new = slice (sa_stack (th_samples thread)) b e \<and>
     sa_weight new = map_option (\<lambda>w. slice w b e) (sa_weight (th_samples thread)) \<and>
     sa_eventDelay new = map_option (\<lambda>d. slice d b e) (sa_eventDelay (th_samples thread)) \<and>
     sa_responsiveness new =
       (case sa_eventDelay (th_samples thread) of
          Some d \<Rightarrow> None
        | None \<Rightarrow> map_option (\<lambda>r. slice r b e) (sa_responsiveness (th_samples thread))) \<and>
     sa_threadCPUDelta new =
       map_option (\<lambda>c. slice c b e) (sa_threadCPUDelta (th_samples thread)) \<and>
     sa_length new = e - b"
proof -
  let ?xs = "sa_time (th_samples thread)"
  note R = getSampleIndexRangeForSelection_correct [OF sorted range]
  have f: "filter (\<lambda>t. rangeStart \<le> t \<and> t < rangeEnd) ?xs = slice ?xs b e"
    by (rule filter_slice [OF R(1) R(2)]) (simp add: R(3))
  note S = filterThreadSamplesToRange_samples [OF range]
  have cols: "sa_time new = slice ?xs b e"
    "sa_stack new = slice (sa_stack (th_samples thread)) b e"
    "sa_weight new = map_option (\<lambda>w. slice w b e) (sa_weight (th_samples thread))"
    "sa_eventDelay new = map_option (\<lambda>d. slice d b e) (sa_eventDelay (th_samples thread))"
    "sa_responsiveness new =
       (case sa_eventDelay (th_samples thread) of
          Some d \<Rightarrow> None
        | None \<Rightarrow> map_option (\<lambda>r. slice r b e) (sa_responsiveness (th_samples thread)))"
    "sa_threadCPUDelta new =
       map_option (\<lambda>c. slice c b e) (sa_threadCPUDelta (th_samples thread))"
    "sa_length new = e - b"
    unfolding new S by simp_all
  from R(1) R(2) R(3) have
    "b \<le> e \<and> e \<le> length ?xs \<and>
     (\<forall>i < length ?xs. (b \<le> i \<and> i < e) = (rangeStart \<le> ?xs ! i \<and> ?xs ! i < rangeEnd))"
    by blast
  with f cols show ?thesis by simp
qed

text \<open>A thread with four samples at the times 0, 5, 10 and 15 on the example tables.\<close>

definition exSamples :: SamplesTable where
  "exSamples =
     \<lparr> sa_time = [0, 5, 10, 15], sa_weight = None, sa_weightType = ''samples'',
       sa_stack = [Some 0, Some 1, None, Some 4], sa_eventDelay = None,
       sa_responsiveness = None, sa_threadCPUDelta = None, sa_length = 4 \<rparr>"

definition exThread :: Thread where
  "exThread =
     \<lparr> th_samples = exSamples, th_jsAllocations = None, th_nativeAllocations = None,
       th_stackTable = exStackTable, th_frameTable = exFrameTable, th_funcTable = exFuncTable,
       th_stringTable = (\<lambda>i. []) \<rparr>"

lemma exThread_range: "getSampleIndexRangeForSelection [0, 5, 10, 15] 5 15 = (1, 3)"
  by (simp add: getSampleIndexRangeForSelection_def bisectionLeft_def bisectionLeftLoop.simps
      Let_def)

theorem filterThreadSamplesToRange_half_open_witness:
  "sorted (sa_time (th_samples exThread)) \<and>
   (1, 3) = getSampleIndexRangeForSelection (sa_time (th_samples exThread)) 5 15 \<and>
   sa_time (th_samples exThread) = [0, 5, 10, 15] \<and>
   sa_time (th_samples (filterThreadSamplesToRange exThread 5 15)) = [5, 10] \<and>
   sa_stack (th_samples (filterThreadSamplesToRange exThread 5 15)) = [Some 1, None] \<and>
   sa_length (th_samples (filterThreadSamplesToRange exThread 5 15)) = 2"
proof -
  have t: "sa_time (th_samples exThread) = [0, 5, 10, 15]"
    and k: "sa_stack (th_samples exThread) = [Some 0, Some 1, None, Some 4]"
    by (simp_all add: exThread_def exSamples_def)
  have s: "sorted (sa_time (th_samples exThread))" by (simp add: t)
  have r: "(1, 3) = getSampleIndexRangeForSelection (sa_time (th_samples exThread)) 5 15"
    by (simp add: t exThread_range)
  from filterThreadSamplesToRange_half_open [OF s r refl]
  have "sa_time (th_samples (filterThreadSamplesToRange exThread 5 15)) =
      filter (\<lambda>t. 5 \<le> t \<and> t < 15) (sa_time (th_samples exThread))"
    "sa_stack (th_samples (filterThreadSamplesToRange exThread 5 15)) =
      slice (sa_stack (th_samples exThread)) 1 3"
    "sa_length (th_samples (filterThreadSamplesToRange exThread 5 15)) = 3 - 1"
    by blast+
  then have "sa_time (th_samples (filterThreadSamplesToRange exThread 5 15)) = [5, 10]"
    "sa_stack (th_samples (filterThreadSamplesToRange exThread 5 15)) = [Some 1, None]"
    "sa_length (th_samples (filterThreadSamplesToRange exThread 5 15)) = 2"
    by (simp_all add: t k slice_def)
  with s r t show ?thesis by simp
qed

section \<open>Event delays\<close>

text \<open>
  A thrown \<^verbatim>\<open>Error\<close> with its message. A function that can throw returns a sum whose left
  side is the error.
\<close>

datatype js_error = Error string

text \<open>
  A table of samples without the \<^verbatim>\<open>eventDelay\<close> column: an older profile, which has the
  \<^verbatim>\<open>responsiveness\<close> column in its place.
\<close>

definition olderSamples :: SamplesTable where
  "olderSamples =
     \<lparr> sa_time = [0, 1, 2], sa_weight = None, sa_weightType = ''samples'',
       sa_stack = [Some 0, Some 0, None], sa_eventDelay = None,
       sa_responsiveness = Some [Some 0, Some 1, None], sa_threadCPUDelta = None,
       sa_length = 3 \<rparr>"

text \<open>
  \<^verbatim>\<open>processEventDelays\<close> opens with the guard \<^verbatim>\<open>if (!samples.eventDelay) throw new Error(...)\<close>.
  The statements of this section are about that guard. What the function does once the
  guard is passed (the loops that redistribute the delays, in double-precision arithmetic
  on a \<^verbatim>\<open>Float32Array\<close>, where a quotient by an interval 0 is infinite and the inner loop may
  have no end) is the parameter \<open>delayLoops\<close>: a function of the samples, the column and the
  interval whose result \<open>None\<close> is a run that does not return. The result of
  \<^verbatim>\<open>processEventDelays\<close> is then the thrown error, or what the loops return.
\<close>

definition processEventDelays ::
  "(SamplesTable \<Rightarrow> rat option list \<Rightarrow> rat \<Rightarrow> 'r option) \<Rightarrow> SamplesTable \<Rightarrow> rat
     \<Rightarrow> (js_error + 'r) option" where
  "processEventDelays delayLoops samples interval =
     (case sa_eventDelay samples of
        None \<Rightarrow>
          Some (Inl (Error ''processEventDelays step should not be called for older profiles''))
      | Some rawEventDelays \<Rightarrow>
          (case delayLoops samples rawEventDelays interval of
             None \<Rightarrow> None
           | Some eventDelayInfo \<Rightarrow> Some (Inr eventDelayInfo)))"

text \<open>
  C9 (as amended). When the samples table has no \<^verbatim>\<open>eventDelay\<close> column,
  \<^verbatim>\<open>processEventDelays\<close> throws the error "processEventDelays step should not be called for
  older profiles", for every interval.
\<close>

theorem processEventDelays_throws_without_eventDelay:
  assumes "sa_eventDelay samples = None"
  shows "processEventDelays delayLoops samples interval =
     Some (Inl (Error ''processEventDelays step should not be called for older profiles''))"
  using assms by (simp add: processEventDelays_def)

theorem processEventDelays_throws_without_eventDelay_witness:
  "sa_eventDelay olderSamples = None \<and>
   processEventDelays (\<lambda>samples rawEventDelays interval. Some rawEventDelays) olderSamples 1 =
     Some (Inl (Error ''processEventDelays step should not be called for older profiles''))"
proof -
  have c: "sa_eventDelay olderSamples = None" by (simp add: olderSamples_def)
  from processEventDelays_throws_without_eventDelay [OF c] c show ?thesis by simp
qed

text \<open>
  C9 as stated fails: the samples \<open>exSamples\<close> have no \<^verbatim>\<open>eventDelay\<close> column, and on them
  \<^verbatim>\<open>processEventDelays\<close> throws instead of returning a null or default result, whatever the
  interval and whatever the loops after the guard would do.
\<close>

theorem processEventDelays_older_profile:
  "sa_eventDelay exSamples = None \<and>
   (\<forall>delayLoops interval. processEventDelays delayLoops exSamples interval =
      Some (Inl (Error ''processEventDelays step should not be called for older profiles'')))"
  by (simp add: processEventDelays_def exSamples_def)

section \<open>Timings of a call node\<close>




































subsection \<open>An example: samples with the stacks A, B, A\<close>







subsection \<open>Well-formed input\<close>




subsection \<open>Every contribution adds to the breakdowns\<close>


































subsection \<open>Root time and self time\<close>














subsection \<open>Values and breakdowns\<close>



























end
